theory Spec2Isabelle
  imports Complex_Main "HOL-Library.Word"
begin

section \<open>Bola no Tubo: the serial protocol of the PC application\<close>

text \<open>
  A shallow embedding of \<^verbatim>\<open>src/app/bola_no_tubo.py\<close>: the wire codec (\<^verbatim>\<open>struct.pack\<close> and
  \<^verbatim>\<open>struct.unpack\<close> with the two format strings the program uses), the reading loop that
  frames the byte stream by idle gaps, the frame handler with its five history deques, the
  command path and the connection life cycle.

  Python's integers are \<open>int\<close>. Bytes are \<open>8 word\<close>. A Python float is the real number
  it denotes, and every float operation of the modelled code is the exact operation followed
  by the rounding \<open>fl64\<close> to the nearest double. Clock readings (\<^verbatim>\<open>time.monotonic()\<close>,
  \<^verbatim>\<open>time.time()\<close>) are inputs of the model. Every exception the modelled code can raise
  is a value of \<open>py_error\<close>.
\<close>

subsection \<open>Protocol parameters\<close>

type_synonym byte = "8 word"

datatype py_error = StructError | IndexError | SerialException

definition BYTES_PER_FRAME_RX :: nat where
  "BYTES_PER_FRAME_RX = 15"

definition BYTES_PER_FRAME_TX :: nat where
  "BYTES_PER_FRAME_TX = 7"

definition PLOT_WINDOW_SECONDS :: int where
  "PLOT_WINDOW_SECONDS = 60"

definition MAX_DUTY_RAW :: int where
  "MAX_DUTY_RAW = 1023"

definition MAX_VALVE_STEPS :: int where
  "MAX_VALVE_STEPS = 420"

text \<open>
  \<^verbatim>\<open>FRAME_GAP_S = 0.040\<close> is the double nearest to 0.04, which is
  \<open>5764607523034235 / 2^57\<close>, a little above \<open>1/25\<close>.
\<close>

definition FRAME_GAP_S :: real where
  "FRAME_GAP_S = 5764607523034235 / 2 ^ 57"

subsection \<open>Utilities\<close>

text \<open>\<^verbatim>\<open>clamp(val, lo, hi) = max(lo, min(hi, val))\<close>.\<close>

definition clamp :: "int \<Rightarrow> int \<Rightarrow> int \<Rightarrow> int" where
  "clamp val lo hi = max lo (min hi val)"

text \<open>
  Python 3's \<^verbatim>\<open>round(x)\<close> of a float, with no digits argument: the nearest integer, a tie
  going to the even neighbour. The argument is read as the real number it denotes. In the
  program the argument is \<^verbatim>\<open>n / 100.0\<close> for an integer \<open>n\<close> with \<open>0 \<le> n \<le> 102300\<close>; a
  tie \<open>k + 1/2\<close> is a float, and float division is monotone and exact on floats, so the
  float quotient lies on the same side of every tie as the real quotient does.
\<close>

definition py_round :: "real \<Rightarrow> int" where
  "py_round x =
     (let f = \<lfloor>x\<rfloor>; d = x - of_int f
      in if d < 1 / 2 then f
         else if 1 / 2 < d then f + 1
         else if even f then f else f + 1)"

text \<open>
  Rounding of a real to the nearest double (IEEE 754 binary64, ties to the even
  significand): the unit \<open>u\<close> is the spacing of the doubles in the binade of \<open>x\<close>, that of
  the subnormal numbers below \<open>2^-1022\<close>. Overflow to infinity is not modelled: no clock
  reading or percentage of the program comes near \<open>2^1024\<close>.
\<close>

definition fl64 :: "real \<Rightarrow> real" where
  "fl64 x =
     (if x = 0 then 0
      else let e = max \<lfloor>log 2 \<bar>x\<bar>\<rfloor> (- 1022); u = 2 powr of_int (e - 52)
           in of_int (py_round (x / u)) * u)"

text \<open>Python's \<^verbatim>\<open>-\<close>, \<^verbatim>\<open>/\<close> and \<^verbatim>\<open>*\<close> on floats.\<close>

definition fsub :: "real \<Rightarrow> real \<Rightarrow> real" where
  "fsub a b = fl64 (a - b)"

definition fdiv :: "real \<Rightarrow> real \<Rightarrow> real" where
  "fdiv a b = fl64 (a / b)"

definition fmul :: "real \<Rightarrow> real \<Rightarrow> real" where
  "fmul a b = fl64 (a * b)"

subsection \<open>The wire codec\<close>

text \<open>
  \<^verbatim>\<open>struct.pack\<close> raises \<^verbatim>\<open>struct.error\<close> when an argument does not fit its field:
  \<^verbatim>\<open>B\<close> takes \<open>0..255\<close>, \<^verbatim>\<open>H\<close> takes \<open>0..65535\<close>. With \<^verbatim>\<open>>\<close> the fields are big-endian
  and unpadded.
\<close>

definition pack_B :: "int \<Rightarrow> py_error + byte list" where
  "pack_B n = (if 0 \<le> n \<and> n \<le> 255 then Inr [word_of_int n] else Inl StructError)"

definition pack_H :: "int \<Rightarrow> py_error + byte list" where
  "pack_H n =
     (if 0 \<le> n \<and> n \<le> 65535 then Inr [word_of_int (n div 256), word_of_int (n mod 256)]
      else Inl StructError)"

text \<open>\<^verbatim>\<open>struct.pack('>B H H H', a, b, c, d)\<close>.\<close>

definition struct_pack_tx :: "int \<Rightarrow> int \<Rightarrow> int \<Rightarrow> int \<Rightarrow> py_error + byte list" where
  "struct_pack_tx a b c d =
     (case pack_B a of Inl e \<Rightarrow> Inl e | Inr ba \<Rightarrow>
       (case pack_H b of Inl e \<Rightarrow> Inl e | Inr bb \<Rightarrow>
         (case pack_H c of Inl e \<Rightarrow> Inl e | Inr bc \<Rightarrow>
           (case pack_H d of Inl e \<Rightarrow> Inl e | Inr bd \<Rightarrow> Inr (ba @ bb @ bc @ bd)))))"

text \<open>An unsigned 16-bit big-endian field: the high byte first.\<close>

definition u16_be :: "byte \<Rightarrow> byte \<Rightarrow> int" where
  "u16_be hi lo = 256 * uint hi + uint lo"

text \<open>\<^verbatim>\<open>be_u16(b) = struct.unpack('>H', b)[0]\<close>: it raises unless \<open>b\<close> has two bytes.\<close>

definition be_u16 :: "byte list \<Rightarrow> py_error + int" where
  "be_u16 b = (case b of [hi, lo] \<Rightarrow> Inr (u16_be hi lo) | _ \<Rightarrow> Inl StructError)"

text \<open>
  \<^verbatim>\<open>struct.unpack('>B H H H H H H H', frame)\<close>: it raises \<^verbatim>\<open>struct.error\<close> unless the
  buffer has the 15 bytes of the format, and then returns the eight fields.
\<close>

type_synonym rx_fields = "int \<times> int \<times> int \<times> int \<times> int \<times> int \<times> int \<times> int"

definition struct_unpack_rx :: "byte list \<Rightarrow> py_error + rx_fields" where
  "struct_unpack_rx frame =
     (if length frame \<noteq> 15 then Inl StructError
      else Inr (uint (frame ! 0),
                u16_be (frame ! 1) (frame ! 2),
                u16_be (frame ! 3) (frame ! 4),
                u16_be (frame ! 5) (frame ! 6),
                u16_be (frame ! 7) (frame ! 8),
                u16_be (frame ! 9) (frame ! 10),
                u16_be (frame ! 11) (frame ! 12),
                u16_be (frame ! 13) (frame ! 14)))"

subsection \<open>The reading loop\<close>

text \<open>
  \<^verbatim>\<open>_reader_loop\<close> keeps \<^verbatim>\<open>self.buffer\<close> and the local \<^verbatim>\<open>last_byte_t\<close>. The field
  \<open>emitted\<close> records, in order, the frames the loop hands to \<^verbatim>\<open>_handle_frame\<close>;
  \<open>stopped\<close> is set when the loop leaves through its exception handler.
\<close>

record reader =
  buffer :: "byte list"
  last_byte_t :: "real option"
  emitted :: "byte list list"
  stopped :: bool

definition reader_init :: reader where
  "reader_init = \<lparr>buffer = [], last_byte_t = None, emitted = [], stopped = False\<rparr>"

text \<open>
  The block both branches of the loop run when they see a gap: a buffer of exactly 15 bytes
  goes to \<^verbatim>\<open>_handle_frame\<close>, and the buffer is cleared whatever its length.
\<close>

definition finalize_frame :: "reader \<Rightarrow> reader" where
  "finalize_frame r =
     (let r1 = (if length (buffer r) = BYTES_PER_FRAME_RX
                then r\<lparr>emitted := emitted r @ [buffer r]\<rparr> else r)
      in r1\<lparr>buffer := []\<rparr>)"

text \<open>
  The body of \<^verbatim>\<open>for b in chunk\<close>. The byte comes with \<open>t\<close>, the reading of
  \<^verbatim>\<open>time.monotonic()\<close> the loop takes for it.
\<close>

definition feed_byte :: "reader \<Rightarrow> byte \<times> real \<Rightarrow> reader" where
  "feed_byte r bt =
     (case bt of (b, t) \<Rightarrow>
        let r1 = (case last_byte_t r of
                    None \<Rightarrow> r
                  | Some l \<Rightarrow> if fsub t l > FRAME_GAP_S then finalize_frame r else r)
        in r1\<lparr>buffer := buffer r1 @ [b], last_byte_t := Some t\<rparr>)"

text \<open>
  One turn of the \<^verbatim>\<open>while\<close> loop. \<open>Read now chunk\<close>: \<^verbatim>\<open>self.ser.read(256)\<close> returned the
  bytes of \<open>chunk\<close> (each paired with the clock reading of its turn of the inner loop) and
  \<open>now\<close> is the clock reading taken right after the read. \<open>ReadFault\<close>: the read raised.
\<close>

datatype poll = Read real "(byte \<times> real) list" | ReadFault

fun reader_iter :: "reader \<Rightarrow> poll \<Rightarrow> reader" where
  "reader_iter r (Read now chunk) =
     (if chunk \<noteq> [] then foldl feed_byte r chunk
      else (case last_byte_t r of
              None \<Rightarrow> r
            | Some l \<Rightarrow>
                if fsub now l > FRAME_GAP_S \<and> buffer r \<noteq> []
                then (finalize_frame r)\<lparr>last_byte_t := None\<rparr>
                else r))"
| "reader_iter r ReadFault = r\<lparr>stopped := True\<rparr>"

text \<open>
  The loop over the turns it gets to run: it starts from \<open>reader_init\<close> and ends at the
  first read fault (\<^verbatim>\<open>break\<close>).
\<close>

fun reader_loop :: "poll list \<Rightarrow> reader \<Rightarrow> reader" where
  "reader_loop [] r = r"
| "reader_loop (p # ps) r =
     (let r' = reader_iter r p in if stopped r' then r' else reader_loop ps r')"

subsection \<open>The application state\<close>

record serial_port =
  device :: string
  is_open :: bool

datatype btn_text = Conectar | Desconectar

datatype status_text = Desconectado | Conectado string | Enviado "byte list"

text \<open>
  The fields of \<^verbatim>\<open>BolaNoTuboApp\<close> the modelled methods read or write. \<open>reader_thread\<close> says
  whether a thread object is stored. \<open>tx_wire\<close> is not a field of the class: it lists the
  payloads \<^verbatim>\<open>self.ser.write\<close> has written, so that "nothing was written" can be said.
  The display string \<^verbatim>\<open>rx_temp_degC\<close> is left out.
\<close>

record app =
  ser :: "serial_port option"
  reader_alive :: bool
  reader_thread :: bool
  rx_mode :: int
  rx_height :: int
  rx_height_sp :: int
  rx_tof :: int
  rx_temp_x10 :: int
  rx_valve_sp :: int
  rx_valve_pos :: int
  rx_duty :: int
  t_hist :: "real list"
  sp_height_hist :: "int list"
  meas_height_hist :: "int list"
  duty_pct_hist :: "real list"
  valve_pct_hist :: "real list"
  window_seconds :: int
  connect_btn :: btn_text
  status_label :: status_text
  tx_wire :: "byte list list"

definition app_init :: app where
  "app_init =
     \<lparr>ser = None, reader_alive = False, reader_thread = False,
      rx_mode = 0, rx_height = 0, rx_height_sp = 0, rx_tof = 0, rx_temp_x10 = 0,
      rx_valve_sp = 0, rx_valve_pos = 0, rx_duty = 0,
      t_hist = [], sp_height_hist = [], meas_height_hist = [],
      duty_pct_hist = [], valve_pct_hist = [],
      window_seconds = PLOT_WINDOW_SECONDS,
      connect_btn = Conectar, status_label = Desconectado, tx_wire = []\<rparr>"

subsection \<open>Handling a frame\<close>

text \<open>
  The eviction loop of \<^verbatim>\<open>_handle_frame\<close>, on the five deques:
  \<^verbatim>\<open>while self.t_hist and self.t_hist[0] < tmin:\<close> pop the left end of each.
  \<^verbatim>\<open>popleft\<close> on an empty deque raises \<^verbatim>\<open>IndexError\<close>.
\<close>

type_synonym hists = "real list \<times> int list \<times> int list \<times> real list \<times> real list"

fun evict :: "real \<Rightarrow> real list \<Rightarrow> int list \<Rightarrow> int list \<Rightarrow> real list \<Rightarrow> real list
    \<Rightarrow> py_error + hists" where
  "evict tmin [] sp mh du va = Inr ([], sp, mh, du, va)"
| "evict tmin (t # ts) sp mh du va =
     (if t < tmin then
        (case sp of [] \<Rightarrow> Inl IndexError | _ # sp' \<Rightarrow>
          (case mh of [] \<Rightarrow> Inl IndexError | _ # mh' \<Rightarrow>
            (case du of [] \<Rightarrow> Inl IndexError | _ # du' \<Rightarrow>
              (case va of [] \<Rightarrow> Inl IndexError | _ # va' \<Rightarrow>
                 evict tmin ts sp' mh' du' va'))))
      else Inr (t # ts, sp, mh, du, va))"

text \<open>
  \<^verbatim>\<open>_handle_frame(frame)\<close>; \<open>now\<close> is the reading of \<^verbatim>\<open>time.time()\<close> it takes. A buffer
  of the wrong length returns at once. Otherwise the eight fields go to the \<open>rx\<close>
  variables, one element is appended to each deque and the eviction loop runs.
\<close>

definition handle_frame :: "real \<Rightarrow> byte list \<Rightarrow> app \<Rightarrow> py_error + app" where
  "handle_frame now frame s =
     (if length frame \<noteq> BYTES_PER_FRAME_RX then Inr s
      else (case struct_unpack_rx frame of
              Inl e \<Rightarrow> Inr s
            | Inr (A, B, C, D, E, F, G, H) \<Rightarrow>
                let s1 = s\<lparr>rx_mode := A, rx_height_sp := B, rx_height := C, rx_tof := D,
                           rx_temp_x10 := E, rx_valve_sp := F, rx_valve_pos := G,
                           rx_duty := H\<rparr>;
                    duty_pct = (if MAX_DUTY_RAW \<noteq> 0
                                then fmul (fdiv (of_int H) (of_int MAX_DUTY_RAW)) 100 else 0);
                    valve_pct = (if MAX_VALVE_STEPS \<noteq> 0
                                 then fmul (fdiv (of_int G) (of_int MAX_VALVE_STEPS)) 100
                                 else 0);
                    tmin = fsub now (of_int (window_seconds s1))
                in (case evict tmin (t_hist s1 @ [now]) (sp_height_hist s1 @ [B])
                          (meas_height_hist s1 @ [C]) (duty_pct_hist s1 @ [duty_pct])
                          (valve_pct_hist s1 @ [valve_pct]) of
                      Inl e \<Rightarrow> Inl e
                    | Inr (ts, sp, mh, du, va) \<Rightarrow>
                        Inr (s1\<lparr>t_hist := ts, sp_height_hist := sp, meas_height_hist := mh,
                                 duty_pct_hist := du, valve_pct_hist := va\<rparr>))))"

text \<open>
  \<^verbatim>\<open>_handle_frame\<close> runs on the reader thread and takes no lock, while the Tk thread
  reads the deques in \<^verbatim>\<open>_update_plots\<close>. So the states between the statements of one call
  can be seen. \<open>evict_steps\<close> lists the states after each \<^verbatim>\<open>popleft\<close> of the eviction
  loop, whose first argument is the time deque it walks down; the list ends where a
  \<^verbatim>\<open>popleft\<close> raises. \<open>handle_frame_steps\<close> lists the states one call goes through: after
  the \<open>rx\<close> variables are set (taken as one step: they touch no deque), after each of the
  five appends, and after each \<^verbatim>\<open>popleft\<close>.
\<close>

fun evict_steps :: "real \<Rightarrow> real list \<Rightarrow> app \<Rightarrow> app list" where
  "evict_steps tmin [] s = []"
| "evict_steps tmin (t # ts) s =
     (if t < tmin then
        (let s1 = s\<lparr>t_hist := ts\<rparr> in
         (case sp_height_hist s1 of [] \<Rightarrow> [s1] | _ # sp \<Rightarrow>
           (let s2 = s1\<lparr>sp_height_hist := sp\<rparr> in
            (case meas_height_hist s2 of [] \<Rightarrow> [s1, s2] | _ # mh \<Rightarrow>
              (let s3 = s2\<lparr>meas_height_hist := mh\<rparr> in
               (case duty_pct_hist s3 of [] \<Rightarrow> [s1, s2, s3] | _ # du \<Rightarrow>
                 (let s4 = s3\<lparr>duty_pct_hist := du\<rparr> in
                  (case valve_pct_hist s4 of [] \<Rightarrow> [s1, s2, s3, s4] | _ # va \<Rightarrow>
                    (let s5 = s4\<lparr>valve_pct_hist := va\<rparr> in
                     [s1, s2, s3, s4, s5] @ evict_steps tmin ts s5)))))))))
      else [])"

definition handle_frame_steps :: "real \<Rightarrow> byte list \<Rightarrow> app \<Rightarrow> app list" where
  "handle_frame_steps now frame s =
     (if length frame \<noteq> BYTES_PER_FRAME_RX then []
      else (case struct_unpack_rx frame of
              Inl e \<Rightarrow> []
            | Inr (A, B, C, D, E, F, G, H) \<Rightarrow>
                let s1 = s\<lparr>rx_mode := A, rx_height_sp := B, rx_height := C, rx_tof := D,
                           rx_temp_x10 := E, rx_valve_sp := F, rx_valve_pos := G,
                           rx_duty := H\<rparr>;
                    a1 = s1\<lparr>t_hist := t_hist s1 @ [now]\<rparr>;
                    a2 = a1\<lparr>sp_height_hist := sp_height_hist a1 @ [B]\<rparr>;
                    a3 = a2\<lparr>meas_height_hist := meas_height_hist a2 @ [C]\<rparr>;
                    duty_pct = (if MAX_DUTY_RAW \<noteq> 0
                                then fmul (fdiv (of_int H) (of_int MAX_DUTY_RAW)) 100 else 0);
                    valve_pct = (if MAX_VALVE_STEPS \<noteq> 0
                                 then fmul (fdiv (of_int G) (of_int MAX_VALVE_STEPS)) 100
                                 else 0);
                    a4 = a3\<lparr>duty_pct_hist := duty_pct_hist a3 @ [duty_pct]\<rparr>;
                    a5 = a4\<lparr>valve_pct_hist := valve_pct_hist a4 @ [valve_pct]\<rparr>;
                    tmin = fsub now (of_int (window_seconds a5))
                in [s1, a1, a2, a3, a4, a5] @ evict_steps tmin (t_hist a5) a5))"

text \<open>
  What \<^verbatim>\<open>_update_plots\<close> hands to the four plot lines: nothing while the time deque is
  empty, else the time axis \<^verbatim>\<open>[t - t0 for t in self.t_hist]\<close> and the four series.
\<close>

definition update_plots ::
    "app \<Rightarrow> (real list \<times> int list \<times> int list \<times> real list \<times> real list) option" where
  "update_plots s =
     (case t_hist s of
        [] \<Rightarrow> None
      | t0 # _ \<Rightarrow>
          Some (map (\<lambda>t. fsub t t0) (t_hist s), sp_height_hist s, meas_height_hist s,
                duty_pct_hist s, valve_pct_hist s))"

text \<open>
  \<^verbatim>\<open>_apply_window_seconds\<close>; the argument is \<open>None\<close> when reading the spin box as an
  integer raises, which the method swallows.
\<close>

definition apply_window_seconds :: "int option \<Rightarrow> app \<Rightarrow> app" where
  "apply_window_seconds v s =
     (case v of
        None \<Rightarrow> s
      | Some val \<Rightarrow>
          let val1 = (if val < 5 then 5 else val);
              val2 = (if val1 > 600 then 600 else val1)
          in s\<lparr>window_seconds := val2\<rparr>)"

text \<open>
  Whole calls in sequence: a frame is handled at a wall-clock reading, or the operator
  applies a window length. \<open>app_run\<close> gives the states between the calls; the states
  inside one call of the handler are those of \<open>handle_frame_steps\<close>.
\<close>

datatype app_event = Frame real "byte list" | ApplyWindow "int option"

fun app_step :: "app_event \<Rightarrow> app \<Rightarrow> py_error + app" where
  "app_step (Frame now frame) s = handle_frame now frame s"
| "app_step (ApplyWindow v) s = Inr (apply_window_seconds v s)"

fun app_run :: "app_event list \<Rightarrow> app \<Rightarrow> py_error + app" where
  "app_run [] s = Inr s"
| "app_run (e # es) s = (case app_step e s of Inl err \<Rightarrow> Inl err | Inr s' \<Rightarrow> app_run es s')"

subsection \<open>Connecting and disconnecting\<close>

text \<open>
  \<^verbatim>\<open>_connect\<close>: \<open>port\<close> is the combo box's text and \<open>opens\<close> says whether
  \<^verbatim>\<open>serial.Serial(...)\<close> returned a port (it raises otherwise).
\<close>

definition connect :: "string \<Rightarrow> bool \<Rightarrow> app \<Rightarrow> app" where
  "connect port opens s =
     (if port = [] then s
      else if opens then
        s\<lparr>ser := Some \<lparr>device = port, is_open = True\<rparr>, reader_alive := True,
          reader_thread := True, connect_btn := Desconectar, status_label := Conectado port\<rparr>
      else s\<lparr>ser := None, connect_btn := Conectar, status_label := Desconectado\<rparr>)"

text \<open>\<^verbatim>\<open>self.ser.close()\<close>, which may raise.\<close>

definition ser_close :: "bool \<Rightarrow> serial_port \<Rightarrow> py_error + serial_port" where
  "ser_close fault p = (if fault then Inl SerialException else Inr (p\<lparr>is_open := False\<rparr>))"

text \<open>
  \<^verbatim>\<open>_disconnect\<close>. The bounded \<^verbatim>\<open>join\<close> of the reader thread only waits; an exception of
  \<^verbatim>\<open>close\<close> is caught and dropped.
\<close>

definition disconnect :: "bool \<Rightarrow> app \<Rightarrow> py_error + app" where
  "disconnect close_fault s =
     (let s1 = s\<lparr>reader_alive := False\<rparr>;
          s2 = (case ser s1 of
                  None \<Rightarrow> s1
                | Some p \<Rightarrow>
                    (case ser_close close_fault p of
                       Inl e \<Rightarrow> s1
                     | Inr p' \<Rightarrow> s1\<lparr>ser := Some p'\<rparr>))
      in Inr (s2\<lparr>ser := None, connect_btn := Conectar, status_label := Desconectado\<rparr>))"

text \<open>
  The condition of the reading loop's \<^verbatim>\<open>while\<close>:
  \<^verbatim>\<open>self.reader_alive and self.ser and self.ser.is_open\<close>.
\<close>

definition reader_guard :: "app \<Rightarrow> bool" where
  "reader_guard s =
     (reader_alive s \<and> (case ser s of None \<Rightarrow> False | Some p \<Rightarrow> is_open p))"

subsection \<open>Sending commands\<close>

datatype send_outcome = NotConnected | WrongSize | IoError | Sent

text \<open>
  \<^verbatim>\<open>_send(payload)\<close>. The outcome names the dialog the method shows (\<open>NotConnected\<close>: the
  warning of the first test; \<open>WrongSize\<close>: the error of the second; \<open>IoError\<close>: the
  error of the \<^verbatim>\<open>except\<close>) or \<open>Sent\<close>. \<open>write_fault\<close> says whether \<^verbatim>\<open>self.ser.write\<close>
  raises.
\<close>

definition send :: "bool \<Rightarrow> byte list \<Rightarrow> app \<Rightarrow> send_outcome \<times> app" where
  "send write_fault payload s =
     (if (case ser s of None \<Rightarrow> True | Some p \<Rightarrow> \<not> is_open p) then (NotConnected, s)
      else if length payload \<noteq> BYTES_PER_FRAME_TX then (WrongSize, s)
      else if write_fault then (IoError, s)
      else (Sent, s\<lparr>tx_wire := tx_wire s @ [payload], status_label := Enviado payload\<rparr>))"

text \<open>
  The mode combo box is read-only and has four values; \<^verbatim>\<open>current()\<close> is the index of
  the selected one, or \<open>-1\<close> when none is selected.
\<close>

datatype mode_choice = NoChoice | Manual | Ventoinha | Valvula | Reset

fun mode_combo_current :: "mode_choice \<Rightarrow> int" where
  "mode_combo_current NoChoice = - 1"
| "mode_combo_current Manual = 0"
| "mode_combo_current Ventoinha = 1"
| "mode_combo_current Valvula = 2"
| "mode_combo_current Reset = 3"

text \<open>
  The four arguments \<^verbatim>\<open>_send_current_command\<close> computes for \<^verbatim>\<open>struct.pack\<close>, from the
  combo box index and the integers of the three spin boxes.
\<close>

definition command_fields :: "int \<Rightarrow> int \<Rightarrow> int \<Rightarrow> int \<Rightarrow> int \<times> int \<times> int \<times> int" where
  "command_fields current sp_height_var sp_valve_var sp_duty_var =
     (let mode_idx = (if current < 0 then 0 else current);
          sp_h = clamp sp_height_var 0 500;
          sp_v_pct = clamp sp_valve_var 0 100;
          sp_d_pct = clamp sp_duty_var 0 100;
          sp_v = py_round (of_int (sp_v_pct * MAX_VALVE_STEPS) / 100);
          sp_d = py_round (of_int (sp_d_pct * MAX_DUTY_RAW) / 100)
      in (mode_idx, sp_h, sp_v, sp_d))"

text \<open>\<^verbatim>\<open>_send_current_command\<close>: an error of \<^verbatim>\<open>struct.pack\<close> leaves the method.\<close>

definition send_current_command ::
    "bool \<Rightarrow> int \<Rightarrow> int \<Rightarrow> int \<Rightarrow> int \<Rightarrow> app \<Rightarrow> py_error + send_outcome \<times> app" where
  "send_current_command write_fault current sp_height_var sp_valve_var sp_duty_var s =
     (case command_fields current sp_height_var sp_valve_var sp_duty_var of
        (mode_idx, sp_h, sp_v, sp_d) \<Rightarrow>
          (case struct_pack_tx mode_idx sp_h sp_v sp_d of
             Inl e \<Rightarrow> Inl e
           | Inr payload \<Rightarrow> Inr (send write_fault payload s)))"

text \<open>\<^verbatim>\<open>_send_reset\<close>.\<close>

definition send_reset :: "bool \<Rightarrow> app \<Rightarrow> py_error + send_outcome \<times> app" where
  "send_reset write_fault s =
     (case struct_pack_tx 3 0 0 0 of
        Inl e \<Rightarrow> Inl e
      | Inr payload \<Rightarrow> Inr (send write_fault payload s))"

subsection \<open>Vocabulary of the properties\<close>

text \<open>
  Timing of a run of bytes as the reading loop sees it; a gap is what the loop's own test
  finds, the rounded difference of two clock readings above \<open>FRAME_GAP_S\<close>.
  \<open>within_gap l xs\<close>: starting from the clock reading \<open>l\<close>, no byte of \<open>xs\<close> comes a gap
  after the one before it. \<open>burst g\<close>: \<open>g\<close> is a non-empty group of bytes with no gap
  inside.
\<close>

fun within_gap :: "real \<Rightarrow> (byte \<times> real) list \<Rightarrow> bool" where
  "within_gap l [] = True"
| "within_gap l (bt # xs) = (\<not> fsub (snd bt) l > FRAME_GAP_S \<and> within_gap (snd bt) xs)"

fun burst :: "(byte \<times> real) list \<Rightarrow> bool" where
  "burst [] = False"
| "burst (bt # xs) = within_gap (snd bt) xs"

definition first_t :: "(byte \<times> real) list \<Rightarrow> real" where
  "first_t g = snd (hd g)"

definition last_t :: "(byte \<times> real) list \<Rightarrow> real" where
  "last_t g = snd (last g)"

text \<open>The timed bytes a sequence of turns delivers, in order.\<close>

fun bytes_of :: "poll list \<Rightarrow> (byte \<times> real) list" where
  "bytes_of [] = []"
| "bytes_of (Read now chunk # ps) = chunk @ bytes_of ps"
| "bytes_of (ReadFault # ps) = bytes_of ps"

text \<open>
  \<^verbatim>\<open>time.monotonic()\<close> never goes back. \<open>clock_mono T ps\<close>: the readings of the turns
  \<open>ps\<close>, in the order the loop takes them (after each read, then one for each byte of the
  chunk), never decrease, starting from \<open>T\<close>; \<open>clock_end T ps\<close> is the last of them.
\<close>

fun chunk_mono :: "real \<Rightarrow> (byte \<times> real) list \<Rightarrow> bool" where
  "chunk_mono T [] = True"
| "chunk_mono T (bt # xs) = (T \<le> snd bt \<and> chunk_mono (snd bt) xs)"

fun clock_mono :: "real \<Rightarrow> poll list \<Rightarrow> bool" where
  "clock_mono T [] = True"
| "clock_mono T (Read now chunk # ps) =
     (T \<le> now \<and> chunk_mono now chunk \<and> clock_mono (last (now # map snd chunk)) ps)"
| "clock_mono T (ReadFault # ps) = clock_mono T ps"

fun clock_end :: "real \<Rightarrow> poll list \<Rightarrow> real" where
  "clock_end T [] = T"
| "clock_end T (Read now chunk # ps) = clock_end (last (now # map snd chunk)) ps"
| "clock_end T (ReadFault # ps) = clock_end T ps"

text \<open>
  \<open>idle_closed T r r'\<close> relates the loop's state \<open>r\<close> to the state \<open>r'\<close> it would have had
  with the same bytes and no idle turn: they are equal, or an idle turn has seen a gap
  after the last byte, not later than the reading \<open>T\<close>, and has closed the pending buffer
  of \<open>r'\<close>.
\<close>

definition idle_closed :: "real \<Rightarrow> reader \<Rightarrow> reader \<Rightarrow> bool" where
  "idle_closed T r r' =
     (r = r' \<or>
      (case last_byte_t r' of
         None \<Rightarrow> False
       | Some l \<Rightarrow> buffer r' \<noteq> [] \<and> fsub T l > FRAME_GAP_S \<and>
           r = (finalize_frame r')\<lparr>last_byte_t := None\<rparr>))"

text \<open>The five deques have one length.\<close>

definition hist_aligned :: "app \<Rightarrow> bool" where
  "hist_aligned s =
     (length (sp_height_hist s) = length (t_hist s) \<and>
      length (meas_height_hist s) = length (t_hist s) \<and>
      length (duty_pct_hist s) = length (t_hist s) \<and>
      length (valve_pct_hist s) = length (t_hist s))"

text \<open>How many samples at the front of the time deque are older than \<open>tmin\<close>.\<close>

definition stale_prefix :: "real \<Rightarrow> real list \<Rightarrow> nat" where
  "stale_prefix tmin ts = length (takeWhile (\<lambda>t. t < tmin) ts)"

text \<open>A port object is stored and it is open: the negation of the first test of \<^verbatim>\<open>_send\<close>.\<close>

definition connected :: "app \<Rightarrow> bool" where
  "connected s = (case ser s of None \<Rightarrow> False | Some p \<Rightarrow> is_open p)"

text \<open>Concrete data for the instances below: groups of timed bytes and a frame.\<close>

definition group_a :: "(byte \<times> real) list" where
  "group_a = map (\<lambda>b. (b, 0)) [1, 2, 3, 4, 5, 6, 7, 8, 9, 10, 11, 12, 13, 14, 15]"

definition group_b :: "(byte \<times> real) list" where
  "group_b = map (\<lambda>b. (b, 41 / 1024)) [170, 187, 204]"

definition group_c :: "(byte \<times> real) list" where
  "group_c = map (\<lambda>b. (b, 82 / 1024)) [15, 14, 13, 12, 11, 10, 9, 8, 7, 6, 5, 4, 3, 2, 1]"

text \<open>
  The bytes of \<open>frame_z\<close> below, arriving 1/128 s apart.
\<close>

definition group_s :: "(byte \<times> real) list" where
  "group_s = [(2, 0), (1, 1 / 128), (44, 2 / 128), (0, 3 / 128), (200, 4 / 128),
     (0, 5 / 128), (7, 6 / 128), (0, 7 / 128), (253, 8 / 128), (0, 9 / 128),
     (210, 10 / 128), (0, 11 / 128), (105, 12 / 128), (1, 13 / 128), (82, 14 / 128)]"

definition frame_z :: "byte list" where
  "frame_z = [2, 1, 44, 0, 200, 0, 7, 0, 253, 0, 210, 0, 105, 1, 82]"

section \<open>Properties\<close>

subsection \<open>The codec\<close>

lemma uint_byte_of_int: "0 \<le> n \<Longrightarrow> n \<le> 255 \<Longrightarrow> uint (word_of_int n :: byte) = n"
  by (simp add: uint_word_of_int take_bit_int_eq_self)

lemma u16_be_split:
  assumes "0 \<le> n" "n \<le> 65535"
  shows "u16_be (word_of_int (n div 256)) (word_of_int (n mod 256)) = n"
proof -
  have hi: "0 \<le> n div 256" "n div 256 \<le> 255" using assms by auto
  have lo: "0 \<le> n mod 256" "n mod 256 \<le> 255" by auto
  show ?thesis
    unfolding u16_be_def using hi lo by (simp add: uint_byte_of_int)
qed

lemma py_round_half:
  "\<bar>of_int (py_round x) - x\<bar> \<le> 1 / 2"
  unfolding py_round_def Let_def by (auto; linarith)

lemma py_round_tie: "\<bar>of_int (py_round x) - x\<bar> = 1 / 2 \<Longrightarrow> even (py_round x)"
  unfolding py_round_def Let_def by (auto split: if_splits; linarith)

lemma struct_pack_tx_in_range:
  assumes "0 \<le> a" "a \<le> 255" "0 \<le> b" "b \<le> 65535" "0 \<le> c" "c \<le> 65535"
    "0 \<le> d" "d \<le> 65535"
  shows "struct_pack_tx a b c d =
     Inr [word_of_int a, word_of_int (b div 256), word_of_int (b mod 256),
          word_of_int (c div 256), word_of_int (c mod 256),
          word_of_int (d div 256), word_of_int (d mod 256)]"
  using assms by (simp add: struct_pack_tx_def pack_B_def pack_H_def)

lemma struct_pack_tx_reset: "struct_pack_tx 3 0 0 0 = Inr [3, 0, 0, 0, 0, 0, 0]"
  by (simp add: struct_pack_tx_def pack_B_def pack_H_def)

lemma py_round_bounds:
  assumes "0 \<le> x" "x \<le> of_int n"
  shows "0 \<le> py_round x \<and> py_round x \<le> n"
proof -
  have f0: "0 \<le> \<lfloor>x\<rfloor>" using assms(1) by simp
  have fn: "\<lfloor>x\<rfloor> \<le> n" using assms(2) by (simp add: floor_le_iff) 
  have up: "\<lfloor>x\<rfloor> + 1 \<le> n" if "x - of_int \<lfloor>x\<rfloor> \<ge> 1 / 2"
  proof -
    from that have "of_int \<lfloor>x\<rfloor> < x" by linarith
    with assms(2) have "real_of_int \<lfloor>x\<rfloor> < of_int n" by linarith
    then show ?thesis by simp
  qed
  show ?thesis
    unfolding py_round_def Let_def using f0 fn up by auto
qed

lemma py_round_div100:
  "py_round (of_int n / 100) =
     (if n mod 100 < 50 then n div 100
      else if 50 < n mod 100 then n div 100 + 1
      else if even (n div 100) then n div 100 else n div 100 + 1)"
proof -
  have f: "\<lfloor>real_of_int n / 100\<rfloor> = n div 100"
    using floor_divide_of_int_eq [of n 100] by simp
  have "real_of_int n = real_of_int (100 * (n div 100) + n mod 100)" by simp
  also have "\<dots> = 100 * real_of_int (n div 100) + real_of_int (n mod 100)"
    by (simp only: of_int_add of_int_mult of_int_numeral)
  finally have "real_of_int n / 100 = real_of_int (n div 100) + real_of_int (n mod 100) / 100"
    by (simp add: field_simps)
  then have d: "real_of_int n / 100 - of_int (n div 100) = of_int (n mod 100) / 100"
    by linarith
  have lt: "(real_of_int (n mod 100) / 100 < 1 / 2) = (n mod 100 < 50)" by auto
  have gt: "(1 / 2 < real_of_int (n mod 100) / 100) = (50 < n mod 100)" by auto
  show ?thesis
    unfolding py_round_def Let_def f d lt gt by simp
qed

lemma half_up: "(n + 50) div 100 = (if n mod 100 < 50 then n div 100 else n div 100 + 1)" for n :: int
proof -
  define q r where "q = n div 100" and "r = n mod 100"
  have n: "n = 100 * q + r" and r: "0 \<le> r" "r < 100"
    by (simp_all add: q_def r_def)
  have "(n + 50) div 100 = (r + 50 + q * 100) div 100"
    by (simp add: n algebra_simps)
  also have "\<dots> = (r + 50) div 100 + q"
    by simp
  also have "(r + 50) div 100 = (if r < 50 then 0 else 1)"
  proof (cases "r < 50")
    case True
    with r have "(r + 50) div 100 = 0" by (simp add: div_pos_pos_trivial)
    with True show ?thesis by simp
  next
    case False
    have "r + 50 = 100 * 1 + (r - 50)" by simp
    moreover have "0 \<le> r - 50" "r - 50 < 100" using False r by simp_all
    ultimately have "(r + 50) div 100 = 1" by (rule int_div_pos_eq)
    with False show ?thesis by simp
  qed
  finally show ?thesis by (simp add: q_def r_def)
qed

lemma valve_no_tie: "(p * 420) mod 100 \<noteq> (50::int)"
proof
  assume a: "(p * 420) mod 100 = 50"
  have "(p * 420) mod 100 = (20 * (p * 21)) mod (20 * 5)" by (simp add: mult.commute)
  also have "\<dots> = 20 * ((p * 21) mod 5)" by (rule mult_mod_right [symmetric])
  finally have "20 * ((p * 21) mod 5) = 50" using a by simp
  then have "2 * ((p * 21) mod 5) = 5" by simp
  then have "even (5::int)" by (metis dvd_triv_left)
  then show False by simp
qed

lemma duty_tie:
  assumes "0 \<le> p" "p \<le> 100" "(p * 1023) mod 100 = (50::int)"
  shows "p = 50"
proof -
  define q where "q = (p * 1023) div 100"
  have "p * 1023 = 100 * q + (p * 1023) mod 100"
    by (simp add: q_def)
  with assms(3) have e: "p * 1023 = 100 * q + 50" by simp
  define k where "k = 87 * q + 43 - 890 * p"
  have "87 * (p * 1023) = 87 * (100 * q + 50)"
    using e by simp
  then have "89001 * p = 8700 * q + 4350"
    by simp
  then have pk: "p = 100 * k + 50"
    unfolding k_def by simp
  have "0 \<le> k" using assms(1) pk by linarith
  moreover have "k \<le> 0" using assms(2) pk by linarith
  ultimately show ?thesis using pk by simp
qed


lemma half_up_valve: "py_round (of_int (p * 420) / 100) = (p * 420 + 50) div 100"
proof -
  have "(p * 420) mod 100 < 50 \<or> 50 < (p * 420) mod 100"
    using valve_no_tie [of p] by linarith
  then show ?thesis
    unfolding py_round_div100 half_up by auto
qed

lemma half_up_duty:
  assumes "0 \<le> p" "p \<le> 100"
  shows "py_round (of_int (p * 1023) / 100) = (p * 1023 + 50) div 100"
proof -
  consider "(p * 1023) mod 100 < 50" | "50 < (p * 1023) mod 100" | "(p * 1023) mod 100 = 50"
    by linarith
  then show ?thesis
  proof cases
    case 1
    then show ?thesis unfolding py_round_div100 half_up by simp
  next
    case 2
    then show ?thesis unfolding py_round_div100 half_up by simp
  next
    case 3
    with assms have "p = 50" by (rule duty_tie)
    then show ?thesis unfolding py_round_div100 half_up by simp
  qed
qed

lemma clamp_range: "lo \<le> hi \<Longrightarrow> lo \<le> clamp v lo hi \<and> clamp v lo hi \<le> hi"
  by (simp add: clamp_def)

text \<open>
  Claim C5 (percentage to raw). The valve and duty fields of a command are
  \<open>round(pct * 420 / 100)\<close> and \<open>round(pct * 1023 / 100)\<close> of the clamped percentages, with
  Python's rounding (a tie goes to the even neighbour): each field is within one half of
  the exact quotient, and is even where it is exactly one half away. On the percentages
  the program can reach, this is also the quotient rounded half up,
  \<open>(pct * maxRaw + 50) div 100\<close>, so rounding a half away from zero gives the same
  fields. A valve setpoint of 50 encodes to 210 and a fan duty of 33 to 338.
\<close>

theorem percentage_to_raw_rounding:
  assumes "command_fields cur h v d = (m, sp_h, sp_v, sp_d)"
  shows "\<bar>real_of_int sp_v - real_of_int (clamp v 0 100 * MAX_VALVE_STEPS) / 100\<bar> \<le> 1 / 2 \<and>
         \<bar>real_of_int sp_d - real_of_int (clamp d 0 100 * MAX_DUTY_RAW) / 100\<bar> \<le> 1 / 2 \<and>
         (\<bar>real_of_int sp_v - real_of_int (clamp v 0 100 * MAX_VALVE_STEPS) / 100\<bar> = 1 / 2
            \<longrightarrow> even sp_v) \<and>
         (\<bar>real_of_int sp_d - real_of_int (clamp d 0 100 * MAX_DUTY_RAW) / 100\<bar> = 1 / 2
            \<longrightarrow> even sp_d) \<and>
         sp_v = (clamp v 0 100 * MAX_VALVE_STEPS + 50) div 100 \<and>
         sp_d = (clamp d 0 100 * MAX_DUTY_RAW + 50) div 100 \<and>
         command_fields cur h 50 33 = (if cur < 0 then 0 else cur, clamp h 0 500, 210, 338)"
proof -
  from assms have v: "sp_v = py_round (of_int (clamp v 0 100 * MAX_VALVE_STEPS) / 100)"
    and d: "sp_d = py_round (of_int (clamp d 0 100 * MAX_DUTY_RAW) / 100)"
    by (simp_all add: command_fields_def Let_def)
  have ex: "command_fields cur h 50 33 = (if cur < 0 then 0 else cur, clamp h 0 500, 210, 338)"
    by (simp add: command_fields_def py_round_def Let_def clamp_def MAX_VALVE_STEPS_def
        MAX_DUTY_RAW_def)
  have hv: "sp_v = (clamp v 0 100 * MAX_VALVE_STEPS + 50) div 100"
    unfolding v MAX_VALVE_STEPS_def by (rule half_up_valve)
  have hd: "sp_d = (clamp d 0 100 * MAX_DUTY_RAW + 50) div 100"
    unfolding d MAX_DUTY_RAW_def using clamp_range [of 0 100 d] by (intro half_up_duty) simp_all
  show ?thesis
    using py_round_half [of "of_int (clamp v 0 100 * MAX_VALVE_STEPS) / 100"]
      py_round_half [of "of_int (clamp d 0 100 * MAX_DUTY_RAW) / 100"]
      py_round_tie [of "of_int (clamp v 0 100 * MAX_VALVE_STEPS) / 100"]
      py_round_tie [of "of_int (clamp d 0 100 * MAX_DUTY_RAW) / 100"]
      hv hd ex
    unfolding v [symmetric] d [symmetric] by blast
qed

theorem percentage_to_raw_rounding_witness:
  "command_fields 1 300 50 33 = (1, 300, 210, 338) \<and>
   \<bar>real_of_int 338 - real_of_int (clamp 33 0 100 * MAX_DUTY_RAW) / 100\<bar> \<le> 1 / 2 \<and>
   (210::int) = (clamp 50 0 100 * MAX_VALVE_STEPS + 50) div 100"
proof -
  have c: "command_fields 1 300 50 33 = (1, 300, 210, 338)"
    by (simp add: command_fields_def py_round_def Let_def clamp_def MAX_VALVE_STEPS_def
        MAX_DUTY_RAW_def)
  show ?thesis
    using c percentage_to_raw_rounding [OF c] by blast
qed


subsection \<open>Rounding to the nearest double\<close>

lemma py_round_ge: "of_int k \<le> y \<Longrightarrow> k \<le> py_round y"
proof -
  assume "of_int k \<le> y"
  then have "k \<le> \<lfloor>y\<rfloor>" by (simp add: le_floor_iff)
  then show ?thesis unfolding py_round_def Let_def by auto
qed

lemma py_round_le: "y \<le> of_int k \<Longrightarrow> py_round y \<le> k"
proof -
  assume a: "y \<le> of_int k"
  then have fk: "\<lfloor>y\<rfloor> \<le> k" by (simp add: floor_le_iff)
  have up: "\<lfloor>y\<rfloor> + 1 \<le> k" if "y - of_int \<lfloor>y\<rfloor> \<ge> 1 / 2"
  proof -
    from that have "of_int \<lfloor>y\<rfloor> < y" by linarith
    with a have "real_of_int \<lfloor>y\<rfloor> < of_int k" by linarith
    then show ?thesis by simp
  qed
  show ?thesis unfolding py_round_def Let_def using fk up by auto
qed

lemma py_round_of_int: "py_round (of_int k) = k"
  by (simp add: py_round_def)

lemma py_round_gt_odd:
  assumes "odd m"
  shows "(m < py_round y) = (of_int m + 1 / 2 \<le> y)"
proof
  assume lt: "m < py_round y"
  have "m \<le> \<lfloor>y\<rfloor>"
  proof (rule ccontr)
    assume "\<not> m \<le> \<lfloor>y\<rfloor>"
    then have "\<lfloor>y\<rfloor> + 1 \<le> m" by simp
    moreover have "py_round y \<le> \<lfloor>y\<rfloor> + 1" unfolding py_round_def Let_def by auto
    ultimately show False using lt by linarith
  qed
  then consider "m + 1 \<le> \<lfloor>y\<rfloor>" | "\<lfloor>y\<rfloor> = m" by linarith
  then show "of_int m + 1 / 2 \<le> y"
  proof cases
    case 1
    then have "of_int (m + 1) \<le> y" by (simp only: le_floor_iff)
    then show ?thesis by simp
  next
    case 2
    have "\<not> y - of_int m < 1 / 2"
    proof
      assume "y - of_int m < 1 / 2"
      then have "py_round y = m" unfolding py_round_def Let_def 2 by simp
      with lt show False by simp
    qed
    then show ?thesis by linarith
  qed
next
  assume ge: "of_int m + 1 / 2 \<le> y"
  then have "of_int m \<le> y" by linarith
  then have mf: "m \<le> \<lfloor>y\<rfloor>" by (simp add: le_floor_iff)
  then consider "m + 1 \<le> \<lfloor>y\<rfloor>" | "\<lfloor>y\<rfloor> = m" by linarith
  then show "m < py_round y"
  proof cases
    case 1
    have "\<lfloor>y\<rfloor> \<le> py_round y" unfolding py_round_def Let_def by auto
    with 1 show ?thesis by linarith
  next
    case 2
    from ge have "\<not> y - of_int m < 1 / 2" by linarith
    then have "py_round y = m + 1"
      unfolding py_round_def Let_def 2 using assms by simp
    then show ?thesis by simp
  qed
qed

lemma binade_bounds:
  assumes "0 < x"
  shows "2 powr of_int \<lfloor>log 2 x\<rfloor> \<le> x \<and> x < 2 powr of_int (\<lfloor>log 2 x\<rfloor> + 1)"
  using floor_log_eq_powr_iff [of x 2 "\<lfloor>log 2 x\<rfloor>"] assms by simp

lemma p2_mono: "a \<le> b \<Longrightarrow> 2 powr real_of_int a \<le> 2 powr real_of_int b"
  by (rule powr_mono) simp_all

lemma p2_split: "2 powr real_of_int (a + b) = 2 powr real_of_int a * 2 powr real_of_int b"
  by (simp add: powr_add)

lemma p2_pos: "0 < 2 powr real_of_int a"
  by simp

lemma scaled_bounds:
  assumes "0 < x" "e = \<lfloor>log 2 x\<rfloor>"
  shows "2 ^ 52 \<le> x / 2 powr of_int (e - 52) \<and> x / 2 powr of_int (e - 52) < 2 ^ 53"
proof -
  have b: "2 powr of_int e \<le> x" "x < 2 powr of_int (e + 1)"
    using binade_bounds [OF assms(1)] assms(2) by simp_all
  have e1: "2 powr real_of_int e = 2 powr real_of_int (e - 52) * 2 ^ 52"
    using p2_split [of "e - 52" 52] by simp
  have e2: "2 powr real_of_int (e + 1) = 2 powr real_of_int (e - 52) * 2 ^ 53"
    using p2_split [of "e - 52" 53] by (simp add: add.commute)
  have u: "0 < 2 powr real_of_int (e - 52)" by simp
  from b(1) e1 u have "2 ^ 52 \<le> x / 2 powr of_int (e - 52)"
    by (simp add: pos_le_divide_eq mult.commute)
  moreover from b(2) e2 u have "x / 2 powr of_int (e - 52) < 2 ^ 53"
    by (simp add: pos_divide_less_eq mult.commute)
  ultimately show ?thesis by simp
qed


lemma fl64_pos_cases:
  assumes "0 < x"
  shows "fl64 x = of_int (py_round (x / 2 powr of_int (max \<lfloor>log 2 x\<rfloor> (- 1022) - 52)))
           * 2 powr of_int (max \<lfloor>log 2 x\<rfloor> (- 1022) - 52)"
  using assms by (simp add: fl64_def Let_def)

lemma fl64_nonpos: "x \<le> 0 \<Longrightarrow> fl64 x \<le> 0"
proof -
  assume a: "x \<le> 0"
  show ?thesis
  proof (cases "x = 0")
    case True
    then show ?thesis by (simp add: fl64_def)
  next
    case False
    define u where "u = 2 powr real_of_int (max \<lfloor>log 2 \<bar>x\<bar>\<rfloor> (- 1022) - 52)"
    have u: "0 < u" by (simp add: u_def)
    with a have "x / u \<le> of_int 0" by (simp add: divide_nonpos_pos)
    then have "py_round (x / u) \<le> 0" by (rule py_round_le)
    then have "of_int (py_round (x / u)) * u \<le> 0"
      using u by (simp add: mult_le_0_iff)
    then show ?thesis using False by (simp add: fl64_def Let_def u_def)
  qed
qed

lemma gap_test_iff: "(FRAME_GAP_S < fl64 x) = (11529215046068471 / 2 ^ 58 \<le> x)"
proof (cases "0 < x")
  case False
  then have "fl64 x \<le> 0" by (simp add: fl64_nonpos)
  with False show ?thesis by (simp add: FRAME_GAP_S_def)
next
  case True
  define e where "e = \<lfloor>log 2 x\<rfloor>"
  define E where "E = max e (- 1022)"
  define u where "u = 2 powr real_of_int (E - 52)"
  have fx: "fl64 x = of_int (py_round (x / u)) * u"
    using fl64_pos_cases [OF True] by (simp add: u_def E_def e_def)
  have u: "0 < u" by (simp add: u_def)
  have b: "2 powr of_int e \<le> x" "x < 2 powr of_int (e + 1)"
    using binade_bounds [OF True] by (simp_all add: e_def)
  consider "e \<le> - 6" | "e = - 5" | "- 4 \<le> e" by linarith
  then show ?thesis
  proof cases
    case 1
    then have E6: "E \<le> - 6" by (simp add: E_def)
    have "2 powr real_of_int (e + 1) \<le> 2 powr real_of_int (- 5)"
      using 1 by (intro p2_mono) simp
    also have "\<dots> = 1 / 32" by (simp add: powr_neg_numeral)
    finally have x32: "x < 1 / 32" using b(2) by linarith
    have eE: "e \<le> E" by (simp add: E_def)
    have "2 powr real_of_int (e + 1) \<le> 2 powr real_of_int (E + 1)"
      using eE by (intro p2_mono) simp
    also have "\<dots> = u * 2 ^ 53"
      using p2_split [of "E - 52" 53] by (simp add: u_def add.commute)
    finally have "x \<le> u * 2 ^ 53" using b(2) by linarith
    then have "x / u \<le> of_int (2 ^ 53)"
      using u by (simp add: pos_divide_le_eq mult.commute)
    then have "py_round (x / u) \<le> 2 ^ 53" by (rule py_round_le)
    then have "real_of_int (py_round (x / u)) \<le> 2 ^ 53"
      by (metis of_int_le_iff of_int_numeral of_int_power)
    then have "fl64 x \<le> 2 ^ 53 * u"
      unfolding fx using u by (simp add: mult_right_mono)
    also have "2 ^ 53 * u = 2 powr real_of_int (E + 1)"
      using p2_split [of "E - 52" 53] by (simp add: u_def add.commute)
    also have "\<dots> \<le> 2 powr real_of_int (- 5)"
      using E6 by (intro p2_mono) simp
    also have "\<dots> = 1 / 32" by (simp add: powr_neg_numeral)
    finally have "fl64 x \<le> 1 / 32" .
    with x32 show ?thesis by (simp add: FRAME_GAP_S_def)
  next
    case 2
    then have "E = - 5" by (simp add: E_def)
    then have uv: "u = 1 / 2 ^ 57" by (simp add: u_def powr_neg_numeral)
    have fx': "fl64 x = of_int (py_round (x * 2 ^ 57)) / 2 ^ 57"
      unfolding fx uv by simp
    have "(FRAME_GAP_S < fl64 x) = (5764607523034235 < py_round (x * 2 ^ 57))"
      unfolding fx' FRAME_GAP_S_def by (simp add: divide_less_cancel)
    also have "\<dots> = (of_int 5764607523034235 + 1 / 2 \<le> x * 2 ^ 57)"
      by (rule py_round_gt_odd) simp
    also have "\<dots> = (11529215046068471 / 2 ^ 58 \<le> x)"
      by (simp add: field_simps)
    finally show ?thesis .
  next
    case 3
    then have EE: "E = e" by (simp add: E_def)
    have "1 / 16 = 2 powr real_of_int (- 4)" by (simp add: powr_neg_numeral)
    also have "\<dots> \<le> 2 powr real_of_int e" using 3 by (intro p2_mono) simp
    finally have p16: "1 / 16 \<le> 2 powr real_of_int e" .
    with b(1) have x16: "1 / 16 \<le> x" by linarith
    from scaled_bounds [OF True e_def] have "of_int (2 ^ 52) \<le> x / u"
      by (simp add: u_def EE)
    then have "2 ^ 52 \<le> py_round (x / u)" by (rule py_round_ge)
    then have "2 ^ 52 \<le> real_of_int (py_round (x / u))"
      by (metis of_int_le_iff of_int_numeral of_int_power)
    then have "2 ^ 52 * u \<le> fl64 x"
      unfolding fx using u by (simp add: mult_right_mono)
    moreover have "2 ^ 52 * u = 2 powr real_of_int e"
      using p2_split [of "e - 52" 52] by (simp add: u_def EE)
    ultimately have "1 / 16 \<le> fl64 x" using p16 by linarith
    with x16 show ?thesis by (simp add: FRAME_GAP_S_def)
  qed
qed

lemma fl64_of_int:
  assumes "\<bar>k\<bar> < 2 ^ 53"
  shows "fl64 (of_int k) = of_int k"
proof (cases "k = 0")
  case True
  then show ?thesis by (simp add: fl64_def)
next
  case False
  define x where "x = \<bar>real_of_int k\<bar>"
  define e where "e = \<lfloor>log 2 x\<rfloor>"
  have x1: "1 \<le> x" using False by (simp add: x_def)
  then have x0: "0 < x" by linarith
  have x53: "x < 2 ^ 53"
    using assms unfolding x_def
    by (metis of_int_abs of_int_less_iff of_int_numeral of_int_power)
  have b: "2 powr of_int e \<le> x" "x < 2 powr of_int (e + 1)"
    using binade_bounds [OF x0] by (simp_all add: e_def)
  have e0: "0 \<le> e"
  proof (rule ccontr)
    assume "\<not> 0 \<le> e"
    then have "e + 1 \<le> 0" by simp
    then have "2 powr real_of_int (e + 1) \<le> 2 powr real_of_int 0" by (rule p2_mono)
    with b(2) x1 show False by simp
  qed
  have e52: "e \<le> 52"
  proof (rule ccontr)
    assume "\<not> e \<le> 52"
    then have "53 \<le> e" by simp
    then have "2 powr real_of_int 53 \<le> 2 powr real_of_int e" by (rule p2_mono)
    with b(1) x53 show False by simp
  qed
  define n where "n = nat (52 - e)"
  have u: "2 powr real_of_int (e - 52) = 1 / 2 ^ n"
  proof (cases "e = 52")
    case True
    then show ?thesis by (simp add: n_def)
  next
    case False
    with e52 have "\<not> 0 \<le> e - 52" by simp
    then show ?thesis using powr_int [of 2 "e - 52"] by (simp add: n_def)
  qed
  have u': "2 powr (real_of_int e - 52) = 1 / 2 ^ n"
    using u by simp
  have E: "max \<lfloor>log 2 \<bar>real_of_int k\<bar>\<rfloor> (- 1022) = e"
    using e0 by (simp add: e_def x_def)
  have "real_of_int k / (1 / 2 ^ n) = of_int (k * 2 ^ n)" by simp
  then have r: "py_round (real_of_int k / (1 / 2 ^ n)) = k * 2 ^ n"
    by (simp only: py_round_of_int)
  have "fl64 (of_int k) = of_int (py_round (of_int k / (1 / 2 ^ n))) * (1 / 2 ^ n)"
    using False by (simp add: fl64_def Let_def E u')
  also have "\<dots> = of_int k" unfolding r by simp
  finally show ?thesis .
qed

text \<open>
  The loop's gap test on a real difference \<open>x\<close>: the rounded difference exceeds the double
  0.04 exactly when \<open>x\<close> reaches the midpoint between that double and the next one (whose
  significand is even). So every difference of 41 ms or more is a gap, and none of 40 ms
  or less is.
\<close>

lemma gap_seen_iff: "(fsub t l > FRAME_GAP_S) = (11529215046068471 / 2 ^ 58 \<le> t - l)"
  unfolding fsub_def by (rule gap_test_iff)

lemma gap_seen_41ms: "41 / 1000 \<le> t - l \<Longrightarrow> fsub t l > FRAME_GAP_S"
  unfolding gap_seen_iff by simp

lemma no_gap_40ms: "t - l \<le> 40 / 1000 \<Longrightarrow> \<not> fsub t l > FRAME_GAP_S"
  unfolding gap_seen_iff by simp

lemma gap_seen_later: "fsub T l > FRAME_GAP_S \<Longrightarrow> T \<le> t \<Longrightarrow> fsub t l > FRAME_GAP_S"
  unfolding gap_seen_iff by simp

subsection \<open>Framing by the reading loop\<close>

lemma stopped_feed_byte: "stopped (feed_byte r bt) = stopped r"
  by (cases bt) (simp add: feed_byte_def finalize_frame_def Let_def split: option.splits)

lemma stopped_feed: "stopped (foldl feed_byte r xs) = stopped r"
  by (induction xs arbitrary: r) (simp_all add: stopped_feed_byte)

lemma reader_loop_append:
  "\<not> stopped (reader_loop ps r) \<Longrightarrow> reader_loop (ps @ qs) r = reader_loop qs (reader_loop ps r)"
  by (induction ps arbitrary: r) (auto simp: Let_def)

lemma feed_within_gap:
  "last_byte_t r = Some l \<Longrightarrow> within_gap l xs \<Longrightarrow>
   foldl feed_byte r xs =
     r\<lparr>buffer := buffer r @ map fst xs, last_byte_t := Some (last (l # map snd xs))\<rparr>"
proof (induction xs arbitrary: r l)
  case Nil
  then show ?case by simp
next
  case (Cons bt xs)
  obtain b t where bt: "bt = (b, t)" by (cases bt)
  from Cons.prems bt have near: "\<not> fsub t l > FRAME_GAP_S" and w: "within_gap t xs"
    by simp_all
  have step: "feed_byte r (b, t) = r\<lparr>buffer := buffer r @ [b], last_byte_t := Some t\<rparr>"
    using Cons.prems(1) near by (simp add: feed_byte_def)
  have "last_byte_t (feed_byte r (b, t)) = Some t" by (simp add: step)
  from Cons.IH [OF this w] show ?case by (simp add: step bt)
qed

lemma feed_burst_fresh:
  assumes "last_byte_t r = None" "burst g"
  shows "foldl feed_byte r g = r\<lparr>buffer := buffer r @ map fst g, last_byte_t := Some (last_t g)\<rparr>"
proof -
  from assms(2) obtain b t xs where g: "g = (b, t) # xs" and w: "within_gap t xs"
    by (cases g) auto
  have step: "feed_byte r (b, t) = r\<lparr>buffer := buffer r @ [b], last_byte_t := Some t\<rparr>"
    using assms(1) by (simp add: feed_byte_def)
  have "last_byte_t (feed_byte r (b, t)) = Some t" by (simp add: step)
  from feed_within_gap [OF this w] show ?thesis
    by (simp add: g step last_t_def last_map)
qed

lemma feed_burst_after_gap:
  assumes "last_byte_t r = Some l" "burst g" "fsub (first_t g) l > FRAME_GAP_S"
  shows "foldl feed_byte r g =
     r\<lparr>buffer := map fst g, last_byte_t := Some (last_t g),
       emitted := emitted r @ (if length (buffer r) = 15 then [buffer r] else [])\<rparr>"
proof -
  from assms(2) obtain b t xs where g: "g = (b, t) # xs" and w: "within_gap t xs"
    by (cases g) auto
  have step: "feed_byte r (b, t) =
      r\<lparr>buffer := [b], last_byte_t := Some t,
        emitted := emitted r @ (if length (buffer r) = 15 then [buffer r] else [])\<rparr>"
    using assms(1,3) by (simp add: feed_byte_def finalize_frame_def g first_t_def
        BYTES_PER_FRAME_RX_def)
  have "last_byte_t (feed_byte r (b, t)) = Some t" by (simp add: step)
  from feed_within_gap [OF this w] show ?thesis
    by (simp add: g step last_t_def last_map)
qed

lemma burst_nonempty: "burst g \<Longrightarrow> g \<noteq> []"
  by (cases g) auto

lemma idle_tick_after_gap:
  assumes "last_byte_t r = Some l" "fsub now l > FRAME_GAP_S" "buffer r \<noteq> []"
  shows "reader_iter r (Read now []) =
     r\<lparr>buffer := [], last_byte_t := None,
       emitted := emitted r @ (if length (buffer r) = 15 then [buffer r] else [])\<rparr>"
  using assms by (simp add: finalize_frame_def BYTES_PER_FRAME_RX_def)


lemma emitted_finalize: "\<forall>f\<in>set (emitted r). length f = 15 \<Longrightarrow> \<forall>f\<in>set (emitted (finalize_frame r)). length f = 15"
  by (simp add: finalize_frame_def BYTES_PER_FRAME_RX_def)

lemma emitted_feed_byte: "\<forall>f\<in>set (emitted r). length f = 15 \<Longrightarrow> \<forall>f\<in>set (emitted (feed_byte r bt)). length f = 15"
  using emitted_finalize [of r]
  by (cases bt) (simp add: feed_byte_def Let_def split: option.splits)

lemma emitted_feed: "\<forall>f\<in>set (emitted r). length f = 15 \<Longrightarrow> \<forall>f\<in>set (emitted (foldl feed_byte r xs)). length f = 15"
proof (induction xs arbitrary: r)
  case Nil
  then show ?case by simp
next
  case (Cons bt xs)
  have "\<forall>f\<in>set (emitted (feed_byte r bt)). length f = 15"
    by (rule emitted_feed_byte [OF Cons.prems])
  from Cons.IH [OF this] show ?case by simp
qed

lemma emitted_iter: "\<forall>f\<in>set (emitted r). length f = 15 \<Longrightarrow> \<forall>f\<in>set (emitted (reader_iter r p)). length f = 15"
proof (cases p)
  case (Read now chunk)
  assume inv: "\<forall>f\<in>set (emitted r). length f = 15"
  show ?thesis
    using emitted_feed [OF inv, of chunk] emitted_finalize [OF inv]
    by (simp add: Read split: option.splits)
next
  case ReadFault
  assume "\<forall>f\<in>set (emitted r). length f = 15"
  then show ?thesis by (simp add: ReadFault)
qed

lemma emitted_loop: "\<forall>f\<in>set (emitted r). length f = 15 \<Longrightarrow> \<forall>f\<in>set (emitted (reader_loop ps r)). length f = 15"
proof (induction ps arbitrary: r)
  case Nil
  then show ?case by simp
next
  case (Cons p ps)
  from emitted_iter [OF Cons.prems] have "\<forall>f\<in>set (emitted (reader_iter r p)). length f = 15" .
  with Cons.IH show ?case by (simp add: Let_def)
qed


text \<open>
  Idle turns. The clock never going back, an idle turn that sees a gap and closes the
  pending buffer does what the next byte would have done on its arrival, and one that
  sees no gap does nothing. So the loop's state after any fault-free turns is the state
  reached by feeding their bytes alone, or that state with its pending buffer closed
  (\<open>idle_closed\<close>), and a last idle turn makes the two equal.
\<close>

lemma stopped_iter: "stopped (reader_iter r (Read now chunk)) = stopped r"
  by (simp add: stopped_feed finalize_frame_def Let_def split: option.splits)

lemma idle_closed_stopped: "idle_closed T r r' \<Longrightarrow> stopped r = stopped r'"
  by (auto simp: idle_closed_def finalize_frame_def Let_def split: option.splits if_splits)

lemma idle_closed_later: "idle_closed T r r' \<Longrightarrow> T \<le> T' \<Longrightarrow> idle_closed T' r r'"
  by (auto simp: idle_closed_def split: option.splits intro: gap_seen_later)

lemma idle_closed_byte:
  assumes "idle_closed T r r'" "T \<le> snd bt"
  shows "feed_byte r bt = feed_byte r' bt"
proof (cases "r = r'")
  case True
  then show ?thesis by simp
next
  case False
  with assms(1) obtain l where l: "last_byte_t r' = Some l" "buffer r' \<noteq> []"
    "fsub T l > FRAME_GAP_S" and r: "r = (finalize_frame r')\<lparr>last_byte_t := None\<rparr>"
    by (auto simp: idle_closed_def split: option.splits)
  obtain b t where bt: "bt = (b, t)" by (cases bt)
  from l(3) assms(2) bt have g: "fsub t l > FRAME_GAP_S"
    by (auto intro: gap_seen_later)
  show ?thesis
    unfolding bt r using l(1) g by (simp add: feed_byte_def finalize_frame_def Let_def)
qed

lemma idle_closed_chunk:
  assumes "idle_closed T r r'" "chunk \<noteq> []" "chunk_mono T chunk"
  shows "foldl feed_byte r chunk = foldl feed_byte r' chunk"
proof -
  from assms(2) obtain bt xs where c: "chunk = bt # xs" by (cases chunk) auto
  with assms(3) have "T \<le> snd bt" by simp
  from idle_closed_byte [OF assms(1) this] show ?thesis by (simp add: c)
qed

lemma idle_closed_idle:
  assumes "idle_closed T r r'" "T \<le> now"
  shows "idle_closed now (reader_iter r (Read now [])) r'"
proof (cases "r = r'")
  case True
  then show ?thesis
    by (auto simp: idle_closed_def split: option.splits)
next
  case False
  with assms(1) obtain l where l: "last_byte_t r' = Some l" "buffer r' \<noteq> []"
    "fsub T l > FRAME_GAP_S" and r: "r = (finalize_frame r')\<lparr>last_byte_t := None\<rparr>"
    by (auto simp: idle_closed_def split: option.splits)
  have "reader_iter r (Read now []) = r" by (simp add: r)
  moreover have "idle_closed now r r'"
    by (rule idle_closed_later [OF assms])
  ultimately show ?thesis by simp
qed

lemma idle_closed_final:
  assumes "idle_closed T r r'" "T \<le> now"
  shows "reader_iter r (Read now []) = reader_iter r' (Read now [])"
proof (cases "r = r'")
  case True
  then show ?thesis by simp
next
  case False
  with assms(1) obtain l where l: "last_byte_t r' = Some l" "buffer r' \<noteq> []"
    "fsub T l > FRAME_GAP_S" and r: "r = (finalize_frame r')\<lparr>last_byte_t := None\<rparr>"
    by (auto simp: idle_closed_def split: option.splits)
  from l(3) assms(2) have g: "fsub now l > FRAME_GAP_S" by (rule gap_seen_later)
  show ?thesis
    unfolding r using l(1,2) g by simp
qed

lemma idle_closed_poll:
  assumes "idle_closed T r r'" "T \<le> now" "chunk_mono now chunk"
  shows "idle_closed (last (now # map snd chunk)) (reader_iter r (Read now chunk))
           (foldl feed_byte r' chunk)"
proof (cases "chunk = []")
  case True
  then show ?thesis using idle_closed_idle [OF assms(1,2)] by simp
next
  case False
  have "idle_closed now r r'" by (rule idle_closed_later [OF assms(1,2)])
  from idle_closed_chunk [OF this False assms(3)] False show ?thesis
    by (simp add: idle_closed_def)
qed

lemma idle_closed_loop:
  assumes "idle_closed T r r'" "ReadFault \<notin> set ps" "clock_mono T ps" "\<not> stopped r"
  shows "idle_closed (clock_end T ps) (reader_loop ps r) (foldl feed_byte r' (bytes_of ps))"
  using assms
proof (induction ps arbitrary: T r r')
  case Nil
  then show ?case by simp
next
  case (Cons p ps)
  from Cons.prems(2) obtain now chunk where p: "p = Read now chunk"
    by (cases p) auto
  from Cons.prems(3) p have m: "T \<le> now" "chunk_mono now chunk"
    "clock_mono (last (now # map snd chunk)) ps"
    by simp_all
  have alive: "\<not> stopped (reader_iter r (Read now chunk))"
    using Cons.prems(4) by (simp add: stopped_iter del: reader_iter.simps)
  have step: "idle_closed (last (now # map snd chunk)) (reader_iter r (Read now chunk))
      (foldl feed_byte r' chunk)"
    by (rule idle_closed_poll [OF Cons.prems(1) m(1,2)])
  from Cons.prems(2) have ff: "ReadFault \<notin> set ps" by simp
  have "idle_closed (clock_end (last (now # map snd chunk)) ps)
      (reader_loop ps (reader_iter r (Read now chunk)))
      (foldl feed_byte (foldl feed_byte r' chunk) (bytes_of ps))"
    by (rule Cons.IH [OF step ff m(3) alive])
  then show ?case
    using alive by (simp add: p Let_def del: reader_iter.simps)
qed

lemma reader_loop_canonical:
  assumes "ReadFault \<notin> set ps" "clock_mono T ps" "clock_end T ps \<le> now"
  shows "reader_loop (ps @ [Read now []]) reader_init
           = reader_iter (foldl feed_byte reader_init (bytes_of ps)) (Read now [])"
    and "idle_closed (clock_end T ps) (reader_loop ps reader_init)
           (foldl feed_byte reader_init (bytes_of ps))"
proof -
  have i0: "idle_closed T reader_init reader_init" by (simp add: idle_closed_def)
  have a0: "\<not> stopped reader_init" by (simp add: reader_init_def)
  show ic: "idle_closed (clock_end T ps) (reader_loop ps reader_init)
      (foldl feed_byte reader_init (bytes_of ps))"
    by (rule idle_closed_loop [OF i0 assms(1,2) a0])
  have "stopped (reader_loop ps reader_init) = stopped (foldl feed_byte reader_init (bytes_of ps))"
    by (rule idle_closed_stopped [OF ic])
  then have alive: "\<not> stopped (reader_loop ps reader_init)"
    by (simp add: stopped_feed a0)
  have al2: "\<not> stopped (reader_iter (reader_loop ps reader_init) (Read now []))"
    using alive by (simp add: stopped_iter del: reader_iter.simps)
  have "reader_loop (ps @ [Read now []]) reader_init
      = reader_loop [Read now []] (reader_loop ps reader_init)"
    by (rule reader_loop_append [OF alive])
  also have "\<dots> = reader_iter (reader_loop ps reader_init) (Read now [])"
    by (simp add: Let_def del: reader_iter.simps)
  also have "\<dots> = reader_iter (foldl feed_byte reader_init (bytes_of ps)) (Read now [])"
    by (rule idle_closed_final [OF ic assms(3)])
  finally show "reader_loop (ps @ [Read now []]) reader_init
           = reader_iter (foldl feed_byte reader_init (bytes_of ps)) (Read now [])" .
qed


lemma emitted_length:
  "f \<in> set (emitted (reader_loop ps reader_init)) \<Longrightarrow> length f = 15"
proof -
  assume a: "f \<in> set (emitted (reader_loop ps reader_init))"
  have "\<forall>f\<in>set (emitted (reader_loop ps reader_init)). length f = 15"
    by (rule emitted_loop) (simp add: reader_init_def)
  with a show ?thesis by blast
qed

lemma feed_one_frame:
  assumes "length g = 15" "burst g"
  shows "foldl feed_byte reader_init g =
     \<lparr>buffer = map fst g, last_byte_t = Some (last_t g), emitted = [], stopped = False\<rparr>"
  using feed_burst_fresh [OF _ assms(2), of reader_init] by (simp add: reader_init_def)

lemma feed_three_groups:
  assumes len: "length g1 = 15" "length g2 = 3" "length g3 = 15"
    and b: "burst g1" "burst g2" "burst g3"
    and gaps: "fsub (first_t g2) (last_t g1) > FRAME_GAP_S"
      "fsub (first_t g3) (last_t g2) > FRAME_GAP_S"
  shows "foldl feed_byte reader_init (g1 @ g2 @ g3) =
     \<lparr>buffer = map fst g3, last_byte_t = Some (last_t g3), emitted = [map fst g1],
       stopped = False\<rparr>"
proof -
  let ?r1 = "\<lparr>buffer = map fst g1, last_byte_t = Some (last_t g1), emitted = [],
      stopped = False\<rparr>"
  let ?r2 = "\<lparr>buffer = map fst g2, last_byte_t = Some (last_t g2), emitted = [map fst g1],
      stopped = False\<rparr>"
  let ?r3 = "\<lparr>buffer = map fst g3, last_byte_t = Some (last_t g3), emitted = [map fst g1],
      stopped = False\<rparr>"
  have s1: "foldl feed_byte reader_init g1 = ?r1"
    by (rule feed_one_frame [OF len(1) b(1)])
  have s2: "foldl feed_byte ?r1 g2 = ?r2"
    using feed_burst_after_gap [OF _ b(2) gaps(1), of ?r1] len(1) by simp
  have s3: "foldl feed_byte ?r2 g3 = ?r3"
    using feed_burst_after_gap [OF _ b(3) gaps(2), of ?r2] len(2) by simp
  show ?thesis by (simp add: s1 s2 s3)
qed

lemma idle_turn_closes:
  assumes "length g = 15" "g \<noteq> []" "fsub now l > FRAME_GAP_S"
  shows "reader_iter \<lparr>buffer = map fst g, last_byte_t = Some l, emitted = es,
       stopped = False\<rparr> (Read now [])
     = \<lparr>buffer = [], last_byte_t = None, emitted = es @ [map fst g], stopped = False\<rparr>"
  using assms by (simp add: finalize_frame_def BYTES_PER_FRAME_RX_def)

lemma reader_loop_chunking:
  assumes "ReadFault \<notin> set ps" "clock_mono T ps" "clock_end T ps \<le> now"
    and "ReadFault \<notin> set qs" "clock_mono T' qs" "clock_end T' qs \<le> now"
    and "bytes_of ps = bytes_of qs"
  shows "reader_loop (ps @ [Read now []]) reader_init
       = reader_loop (qs @ [Read now []]) reader_init"
  using reader_loop_canonical(1) [OF assms(1,2,3)] reader_loop_canonical(1) [OF assms(4,5,6)]
    assms(7)
  by simp

text \<open>
  The comparison is strict and between doubles: an idle turn whose clock reading is
  exactly the double \<open>0.04\<close> after bytes stamped 0 sees no gap.
\<close>

lemma idle_turn_at_threshold:
  "reader_loop [Read 0 group_a, Read FRAME_GAP_S []] reader_init
     = \<lparr>buffer = map fst group_a, last_byte_t = Some 0, emitted = [], stopped = False\<rparr>"
proof -
  have b: "burst group_a" by (simp add: group_a_def gap_seen_iff)
  have len: "length group_a = 15" by (simp add: group_a_def)
  have ne: "group_a \<noteq> []" by (simp add: group_a_def)
  have l: "last_t group_a = 0" by (simp add: group_a_def last_t_def)
  have ng: "\<not> fsub FRAME_GAP_S 0 > FRAME_GAP_S"
    unfolding gap_seen_iff by (simp add: FRAME_GAP_S_def)
  show ?thesis
    using ne ng by (simp add: feed_one_frame [OF len b] l Let_def)
qed

text \<open>
  Claim C1 (framer resynchronization). Let \<open>g1\<close>, \<open>g2\<close>, \<open>g3\<close> be groups of 15, 3 and 15
  timed bytes, each without a gap inside, with a gap between \<open>g1\<close> and \<open>g2\<close> and between
  \<open>g2\<close> and \<open>g3\<close>; a gap is what the loop tests, the rounded difference of two clock
  readings being greater than the double \<open>0.04\<close> (lemma \<open>gap_seen_iff\<close>: every difference
  of 41 ms or more is one, none of 40 ms or less is). Let the bytes be delivered by any
  turns \<open>ps\<close> of the loop with no read fault, in chunks of any size and with idle turns
  anywhere, the clock never going back, and let a last idle turn see the gap after \<open>g3\<close>.
  Then the loop has emitted exactly the two frames \<open>g1\<close> and \<open>g3\<close>, in this order, its
  buffer is empty and the last arrival time is unset. Before that last turn it has emitted
  \<open>g1\<close> and either holds \<open>g3\<close> in its buffer or an earlier idle turn has emitted \<open>g3\<close>
  already. The 3-byte group is emitted by no run of the loop at all.
\<close>

theorem framer_resynchronization:
  assumes len: "length g1 = 15" "length g2 = 3" "length g3 = 15"
    and b: "burst g1" "burst g2" "burst g3"
    and gaps: "fsub (first_t g2) (last_t g1) > FRAME_GAP_S"
      "fsub (first_t g3) (last_t g2) > FRAME_GAP_S"
    and tick: "fsub now (last_t g3) > FRAME_GAP_S"
    and ff: "ReadFault \<notin> set ps" and mono: "clock_mono T ps"
    and fin: "clock_end T ps \<le> now"
    and cat: "bytes_of ps = g1 @ g2 @ g3"
  shows "reader_loop (ps @ [Read now []]) reader_init
           = \<lparr>buffer = [], last_byte_t = None, emitted = [map fst g1, map fst g3],
               stopped = False\<rparr> \<and>
         (reader_loop ps reader_init
            = \<lparr>buffer = map fst g3, last_byte_t = Some (last_t g3), emitted = [map fst g1],
                stopped = False\<rparr> \<or>
          reader_loop ps reader_init
            = \<lparr>buffer = [], last_byte_t = None, emitted = [map fst g1, map fst g3],
                stopped = False\<rparr>) \<and>
         (\<forall>qs. map fst g2 \<notin> set (emitted (reader_loop qs reader_init)))"
proof -
  let ?r3 = "\<lparr>buffer = map fst g3, last_byte_t = Some (last_t g3), emitted = [map fst g1],
      stopped = False\<rparr>"
  let ?r4 = "\<lparr>buffer = [], last_byte_t = None, emitted = [map fst g1, map fst g3],
      stopped = False\<rparr>"
  have fed: "foldl feed_byte reader_init (bytes_of ps) = ?r3"
    unfolding cat by (rule feed_three_groups [OF len b gaps])
  have ne: "g3 \<noteq> []" by (rule burst_nonempty [OF b(3)])
  have close: "reader_iter ?r3 (Read now []) = ?r4"
    using idle_turn_closes [OF len(3) ne tick, of "[map fst g1]"] by simp
  have one: "reader_loop (ps @ [Read now []]) reader_init = ?r4"
    using reader_loop_canonical(1) [OF ff mono fin] by (simp only: fed close)
  have ic: "idle_closed (clock_end T ps) (reader_loop ps reader_init) ?r3"
    using reader_loop_canonical(2) [OF ff mono fin] by (simp only: fed)
  have two: "reader_loop ps reader_init = ?r3 \<or> reader_loop ps reader_init = ?r4"
    using ic len(3) by (auto simp: idle_closed_def finalize_frame_def BYTES_PER_FRAME_RX_def)
  have never: "map fst g2 \<notin> set (emitted (reader_loop qs reader_init))" for qs
  proof
    assume "map fst g2 \<in> set (emitted (reader_loop qs reader_init))"
    then have "length (map fst g2) = 15" by (rule emitted_length)
    with len(2) show False by simp
  qed
  show ?thesis
    using one two never by blast
qed

theorem framer_resynchronization_witness:
  "length group_a = 15 \<and> length group_b = 3 \<and> length group_c = 15 \<and>
   burst group_a \<and> burst group_b \<and> burst group_c \<and>
   fsub (first_t group_b) (last_t group_a) > FRAME_GAP_S \<and>
   fsub (first_t group_c) (last_t group_b) > FRAME_GAP_S \<and>
   fsub (123 / 1024) (last_t group_c) > FRAME_GAP_S \<and>
   ReadFault \<notin> set [Read 0 group_a, Read (41 / 1024) [], Read (41 / 1024) group_b,
      Read (82 / 1024) group_c] \<and>
   clock_mono 0 [Read 0 group_a, Read (41 / 1024) [], Read (41 / 1024) group_b,
      Read (82 / 1024) group_c] \<and>
   clock_end 0 [Read 0 group_a, Read (41 / 1024) [], Read (41 / 1024) group_b,
      Read (82 / 1024) group_c] \<le> 123 / 1024 \<and>
   bytes_of [Read 0 group_a, Read (41 / 1024) [], Read (41 / 1024) group_b,
      Read (82 / 1024) group_c] = group_a @ group_b @ group_c \<and>
   reader_loop ([Read 0 group_a, Read (41 / 1024) [], Read (41 / 1024) group_b,
      Read (82 / 1024) group_c] @ [Read (123 / 1024) []]) reader_init
     = \<lparr>buffer = [], last_byte_t = None, emitted = [map fst group_a, map fst group_c],
         stopped = False\<rparr>"
proof -
  let ?ps = "[Read 0 group_a, Read (41 / 1024) [], Read (41 / 1024) group_b,
      Read (82 / 1024) group_c]"
  have len: "length group_a = 15" "length group_b = 3" "length group_c = 15"
    by (simp_all add: group_a_def group_b_def group_c_def)
  have b: "burst group_a" "burst group_b" "burst group_c"
    by (simp_all add: group_a_def group_b_def group_c_def gap_seen_iff)
  have gaps: "fsub (first_t group_b) (last_t group_a) > FRAME_GAP_S"
    "fsub (first_t group_c) (last_t group_b) > FRAME_GAP_S"
    by (simp_all add: group_a_def group_b_def group_c_def first_t_def last_t_def gap_seen_iff)
  have tick: "fsub (123 / 1024) (last_t group_c) > FRAME_GAP_S"
    by (simp add: group_c_def last_t_def gap_seen_iff)
  have ff: "ReadFault \<notin> set ?ps"
    by simp
  have mono: "clock_mono 0 ?ps"
    by (simp add: group_a_def group_b_def group_c_def)
  have fin: "clock_end 0 ?ps \<le> 123 / 1024"
    by (simp add: group_a_def group_b_def group_c_def)
  have cat: "bytes_of ?ps = group_a @ group_b @ group_c"
    by simp
  show ?thesis
    using len b gaps tick ff mono fin cat
      framer_resynchronization [OF len b gaps tick ff mono fin cat]
    by blast
qed

text \<open>
  Claim C2 (framer chunk invariance). Let \<open>g\<close> be 15 timed bytes without a gap inside
  (the test of the loop, as in C1) and let an idle turn at \<open>now\<close> see the gap after the
  last of them. Whatever fault-free turns \<open>ps\<close> deliver these bytes, in chunks of any
  size and with idle turns between them, the clock never going back, the loop ends with
  exactly the one frame \<open>g\<close> emitted and an empty buffer. In particular this holds for the
  chunks of 1, 1 and 13 bytes and for the single chunk, whose final states are therefore
  the same. For any bytes at all, two sequences of turns that deliver the same timed bytes
  and end with the same idle turn leave the loop in the same state: what is emitted
  depends on the bytes and their times, not on the chunks.
\<close>

theorem framer_chunk_invariance:
  assumes len: "length g = 15" and b: "burst g"
    and tick: "fsub now (last_t g) > FRAME_GAP_S"
  shows "(\<forall>T ps. ReadFault \<notin> set ps \<and> clock_mono T ps \<and> clock_end T ps \<le> now \<and>
            bytes_of ps = g \<longrightarrow>
            reader_loop (ps @ [Read now []]) reader_init
              = \<lparr>buffer = [], last_byte_t = None, emitted = [map fst g],
                  stopped = False\<rparr>) \<and>
         reader_loop [Read n1 (take 1 g), Read n2 (take 1 (drop 1 g)), Read n3 (drop 2 g),
             Read now []] reader_init
           = \<lparr>buffer = [], last_byte_t = None, emitted = [map fst g], stopped = False\<rparr> \<and>
         reader_loop [Read n0 g, Read now []] reader_init
           = \<lparr>buffer = [], last_byte_t = None, emitted = [map fst g], stopped = False\<rparr> \<and>
         (\<forall>T T' ps qs n. ReadFault \<notin> set ps \<and> clock_mono T ps \<and> clock_end T ps \<le> n \<and>
            ReadFault \<notin> set qs \<and> clock_mono T' qs \<and> clock_end T' qs \<le> n \<and>
            bytes_of ps = bytes_of qs \<longrightarrow>
            reader_loop (ps @ [Read n []]) reader_init
              = reader_loop (qs @ [Read n []]) reader_init)"
proof -
  let ?r1 = "\<lparr>buffer = map fst g, last_byte_t = Some (last_t g), emitted = [],
      stopped = False\<rparr>"
  let ?r2 = "\<lparr>buffer = [], last_byte_t = None, emitted = [map fst g], stopped = False\<rparr>"
  have ne: "g \<noteq> []" by (rule burst_nonempty [OF b])
  have fed: "foldl feed_byte reader_init g = ?r1"
    by (rule feed_one_frame [OF len b])
  have close: "reader_iter ?r1 (Read now []) = ?r2"
    using idle_turn_closes [OF len ne tick, of "[]"] by simp
  have any: "reader_loop (ps @ [Read now []]) reader_init = ?r2"
    if "ReadFault \<notin> set ps" "clock_mono T ps" "clock_end T ps \<le> now" "bytes_of ps = g"
    for T ps
    using reader_loop_canonical(1) [OF that(1,2,3)] by (simp only: that(4) fed close)
  have a0: "\<not> stopped reader_init" by (simp add: reader_init_def)
  have c1: "take 1 g \<noteq> []" using len by (cases g) auto
  have c2: "take 1 (drop 1 g) \<noteq> []" using len by simp
  have c3: "drop 2 g \<noteq> []" using len by simp
  have "(2::nat) = 1 + 1" by simp
  then have d: "drop 2 g = drop 1 (drop 1 g)" by (simp only: drop_drop)
  have "take 1 (drop 1 g) @ drop 1 (drop 1 g) = drop 1 g"
    by (rule append_take_drop_id)
  moreover have "take 1 g @ drop 1 g = g"
    by (rule append_take_drop_id)
  ultimately have cat: "take 1 g @ take 1 (drop 1 g) @ drop 2 g = g"
    by (simp only: d)
  have "reader_loop [Read n1 (take 1 g), Read n2 (take 1 (drop 1 g)), Read n3 (drop 2 g),
      Read now []] reader_init
      = reader_iter (foldl feed_byte (foldl feed_byte (foldl feed_byte reader_init
          (take 1 g)) (take 1 (drop 1 g))) (drop 2 g)) (Read now [])"
    using c1 c2 c3 a0 by (simp add: Let_def stopped_feed)
  also have "\<dots> = reader_iter (foldl feed_byte reader_init
      (take 1 g @ take 1 (drop 1 g) @ drop 2 g)) (Read now [])"
    by (simp only: foldl_append)
  finally have split: "reader_loop [Read n1 (take 1 g), Read n2 (take 1 (drop 1 g)),
      Read n3 (drop 2 g), Read now []] reader_init = ?r2"
    by (simp only: cat fed close)
  have "reader_loop [Read n0 g, Read now []] reader_init
      = reader_iter (foldl feed_byte reader_init g) (Read now [])"
    using ne a0 by (simp add: Let_def stopped_feed)
  then have whole: "reader_loop [Read n0 g, Read now []] reader_init = ?r2"
    by (simp only: fed close)
  have chunking: "reader_loop (ps @ [Read n []]) reader_init
      = reader_loop (qs @ [Read n []]) reader_init"
    if "ReadFault \<notin> set ps \<and> clock_mono T ps \<and> clock_end T ps \<le> n \<and>
        ReadFault \<notin> set qs \<and> clock_mono T' qs \<and> clock_end T' qs \<le> n \<and>
        bytes_of ps = bytes_of qs"
    for T T' ps qs n
    using that reader_loop_chunking [of ps T n qs T'] by blast
  show ?thesis
    using any split whole chunking by blast
qed

theorem framer_chunk_invariance_witness:
  "length group_s = 15 \<and> burst group_s \<and>
   fsub (153 / 1024) (last_t group_s) > FRAME_GAP_S \<and>
   ReadFault \<notin> set [Read 0 (take 1 group_s), Read (1 / 256) [],
      Read (1 / 128) (take 1 (drop 1 group_s)), Read (1 / 64) (drop 2 group_s),
      Read (15 / 128) []] \<and>
   clock_mono 0 [Read 0 (take 1 group_s), Read (1 / 256) [],
      Read (1 / 128) (take 1 (drop 1 group_s)), Read (1 / 64) (drop 2 group_s),
      Read (15 / 128) []] \<and>
   clock_end 0 [Read 0 (take 1 group_s), Read (1 / 256) [],
      Read (1 / 128) (take 1 (drop 1 group_s)), Read (1 / 64) (drop 2 group_s),
      Read (15 / 128) []] \<le> 153 / 1024 \<and>
   bytes_of [Read 0 (take 1 group_s), Read (1 / 256) [],
      Read (1 / 128) (take 1 (drop 1 group_s)), Read (1 / 64) (drop 2 group_s),
      Read (15 / 128) []] = group_s \<and>
   reader_loop ([Read 0 (take 1 group_s), Read (1 / 256) [],
      Read (1 / 128) (take 1 (drop 1 group_s)), Read (1 / 64) (drop 2 group_s),
      Read (15 / 128) []] @ [Read (153 / 1024) []]) reader_init
     = \<lparr>buffer = [], last_byte_t = None, emitted = [map fst group_s], stopped = False\<rparr> \<and>
   reader_loop [Read 0 group_s, Read (153 / 1024) []] reader_init
     = \<lparr>buffer = [], last_byte_t = None, emitted = [map fst group_s], stopped = False\<rparr>"
proof -
  let ?ps = "[Read 0 (take 1 group_s), Read (1 / 256) [],
      Read (1 / 128) (take 1 (drop 1 group_s)), Read (1 / 64) (drop 2 group_s),
      Read (15 / 128) []]"
  have len: "length group_s = 15"
    by (simp add: group_s_def)
  have b: "burst group_s"
    by (simp add: group_s_def gap_seen_iff)
  have tick: "fsub (153 / 1024) (last_t group_s) > FRAME_GAP_S"
    by (simp add: group_s_def last_t_def gap_seen_iff)
  have ff: "ReadFault \<notin> set ?ps"
    by simp
  have mono: "clock_mono 0 ?ps"
    by (simp add: group_s_def)
  have fin: "clock_end 0 ?ps \<le> 153 / 1024"
    by (simp add: group_s_def)
  have cat: "bytes_of ?ps = group_s"
    by (simp add: group_s_def)
  show ?thesis
    using len b tick ff mono fin cat
      framer_chunk_invariance [OF len b tick, of 0 0]
    by blast
qed

subsection \<open>Commands and the connection\<close>

lemma command_fields_range:
  assumes "command_fields (mode_combo_current choice) hv vv dv = (m, h, v, d)"
  shows "0 \<le> m \<and> m \<le> 3 \<and> 0 \<le> h \<and> h \<le> 500 \<and> 0 \<le> v \<and> v \<le> 420 \<and> 0 \<le> d \<and> d \<le> 1023"
proof -
  from assms have m: "m = (if mode_combo_current choice < 0 then 0 else mode_combo_current choice)"
    and h: "h = clamp hv 0 500"
    and v: "v = py_round (of_int (clamp vv 0 100 * 420) / 100)"
    and d: "d = py_round (of_int (clamp dv 0 100 * 1023) / 100)"
    by (simp_all add: command_fields_def Let_def MAX_VALVE_STEPS_def MAX_DUTY_RAW_def)
  have mr: "0 \<le> m \<and> m \<le> 3"
    unfolding m by (cases choice) simp_all
  have hr: "0 \<le> h \<and> h \<le> 500"
    unfolding h by (rule clamp_range) simp
  have cv: "0 \<le> clamp vv 0 100 \<and> clamp vv 0 100 \<le> 100"
    by (rule clamp_range) simp
  have cd: "0 \<le> clamp dv 0 100 \<and> clamp dv 0 100 \<le> 100"
    by (rule clamp_range) simp
  have vr: "0 \<le> v \<and> v \<le> 420"
    unfolding v using cv by (intro py_round_bounds) simp_all
  have dr: "0 \<le> d \<and> d \<le> 1023"
    unfolding d using cd by (intro py_round_bounds) simp_all
  from mr hr vr dr show ?thesis by simp
qed

lemma command_fields_eq:
  "command_fields cur hv vv dv =
     (if cur < 0 then 0 else cur, clamp hv 0 500, (clamp vv 0 100 * 420 + 50) div 100,
      (clamp dv 0 100 * 1023 + 50) div 100)"
proof -
  have d: "py_round (of_int (clamp dv 0 100 * 1023) / 100) = (clamp dv 0 100 * 1023 + 50) div 100"
    using clamp_range [of 0 100 dv] by (intro half_up_duty) simp_all
  have v: "py_round (of_int (clamp vv 0 100 * 420) / 100) = (clamp vv 0 100 * 420 + 50) div 100"
    by (rule half_up_valve)
  show ?thesis
    by (simp only: command_fields_def Let_def MAX_VALVE_STEPS_def MAX_DUTY_RAW_def v d)
qed

lemma pack_layout:
  assumes "0 \<le> a" "a \<le> 255" "0 \<le> b" "b \<le> 65535" "0 \<le> c" "c \<le> 65535"
    "0 \<le> d" "d \<le> 65535"
  shows "\<exists>p. struct_pack_tx a b c d = Inr p \<and> length p = 7 \<and>
            p = [word_of_int a, word_of_int (b div 256), word_of_int (b mod 256),
                 word_of_int (c div 256), word_of_int (c mod 256),
                 word_of_int (d div 256), word_of_int (d mod 256)] \<and>
            uint (p ! 0) = a \<and> u16_be (p ! 1) (p ! 2) = b \<and>
            u16_be (p ! 3) (p ! 4) = c \<and> u16_be (p ! 5) (p ! 6) = d"
proof -
  define p :: "byte list" where
    "p = [word_of_int a, word_of_int (b div 256), word_of_int (b mod 256),
          word_of_int (c div 256), word_of_int (c mod 256),
          word_of_int (d div 256), word_of_int (d mod 256)]"
  have pk: "struct_pack_tx a b c d = Inr p"
    unfolding p_def using assms by (rule struct_pack_tx_in_range)
  have len: "length p = 7"
    by (simp add: p_def)
  have fa: "uint (p ! 0) = a"
    using assms(1,2) by (simp add: p_def uint_byte_of_int)
  have fb: "u16_be (p ! 1) (p ! 2) = b"
    using u16_be_split [OF assms(3,4)] by (simp add: p_def)
  have fc: "u16_be (p ! 3) (p ! 4) = c"
    using u16_be_split [OF assms(5,6)] by (simp add: p_def)
  have fd: "u16_be (p ! 5) (p ! 6) = d"
    using u16_be_split [OF assms(7,8)] by (simp add: p_def)
  from pk len fa fb fc fd show ?thesis
    unfolding p_def by blast
qed

lemma send_connected:
  assumes "connected s" "\<not> fault" "length p = 7"
  shows "send fault p s = (Sent, s\<lparr>tx_wire := tx_wire s @ [p], status_label := Enviado p\<rparr>)"
  using assms by (simp add: send_def connected_def BYTES_PER_FRAME_TX_def split: option.splits)

text \<open>
  Claim C4 (command encoding). For every command whose mode fits one unsigned byte and
  whose three fields fit 16 unsigned bits, \<^verbatim>\<open>struct.pack('>B H H H', ...)\<close> returns exactly
  7 bytes: the mode byte, then the height setpoint, the valve setpoint and the fan duty,
  each as high byte and low byte; reading the bytes back gives the four values. The reset
  command (mode 3, the rest 0) is the bytes 03 00 00 00 00 00 00; these are what
  \<^verbatim>\<open>_send_reset\<close> passes to \<^verbatim>\<open>_send\<close>, and what is written to an open port when the write
  does not fail. Whatever the combo box and the three spin boxes hold,
  \<^verbatim>\<open>_send_current_command\<close> passes to \<^verbatim>\<open>_send\<close> the 7 bytes of this layout for the mode
  index (0 when nothing is selected), the clamped height, the valve steps and the duty it
  computes, and on an open port with no write fault exactly these bytes are written.
\<close>

theorem command_encoding_layout:
  assumes "0 \<le> a" "a \<le> 255" "0 \<le> b" "b \<le> 65535" "0 \<le> c" "c \<le> 65535"
    "0 \<le> d" "d \<le> 65535"
  shows "(\<exists>p. struct_pack_tx a b c d = Inr p \<and> length p = 7 \<and>
            p = [word_of_int a, word_of_int (b div 256), word_of_int (b mod 256),
                 word_of_int (c div 256), word_of_int (c mod 256),
                 word_of_int (d div 256), word_of_int (d mod 256)] \<and>
            uint (p ! 0) = a \<and> u16_be (p ! 1) (p ! 2) = b \<and>
            u16_be (p ! 3) (p ! 4) = c \<and> u16_be (p ! 5) (p ! 6) = d) \<and>
         struct_pack_tx 3 0 0 0 = Inr [3, 0, 0, 0, 0, 0, 0] \<and>
         send_reset fault s = Inr (send fault [3, 0, 0, 0, 0, 0, 0] s) \<and>
         (connected s \<and> \<not> fault \<longrightarrow>
            send_reset fault s =
              Inr (Sent, s\<lparr>tx_wire := tx_wire s @ [[3, 0, 0, 0, 0, 0, 0]],
                            status_label := Enviado [3, 0, 0, 0, 0, 0, 0]\<rparr>)) \<and>
         (\<exists>m h v u p.
            command_fields (mode_combo_current choice) hv vv dv = (m, h, v, u) \<and>
            m = max 0 (mode_combo_current choice) \<and> h = clamp hv 0 500 \<and>
            v = (clamp vv 0 100 * 420 + 50) div 100 \<and>
            u = (clamp dv 0 100 * 1023 + 50) div 100 \<and>
            struct_pack_tx m h v u = Inr p \<and> length p = 7 \<and>
            p = [word_of_int m, word_of_int (h div 256), word_of_int (h mod 256),
                 word_of_int (v div 256), word_of_int (v mod 256),
                 word_of_int (u div 256), word_of_int (u mod 256)] \<and>
            uint (p ! 0) = m \<and> u16_be (p ! 1) (p ! 2) = h \<and>
            u16_be (p ! 3) (p ! 4) = v \<and> u16_be (p ! 5) (p ! 6) = u \<and>
            send_current_command fault (mode_combo_current choice) hv vv dv s
              = Inr (send fault p s) \<and>
            (connected s \<and> \<not> fault \<longrightarrow>
               send fault p s =
                 (Sent, s\<lparr>tx_wire := tx_wire s @ [p], status_label := Enviado p\<rparr>)))"
proof -
  have one: "\<exists>p. struct_pack_tx a b c d = Inr p \<and> length p = 7 \<and>
            p = [word_of_int a, word_of_int (b div 256), word_of_int (b mod 256),
                 word_of_int (c div 256), word_of_int (c mod 256),
                 word_of_int (d div 256), word_of_int (d mod 256)] \<and>
            uint (p ! 0) = a \<and> u16_be (p ! 1) (p ! 2) = b \<and>
            u16_be (p ! 3) (p ! 4) = c \<and> u16_be (p ! 5) (p ! 6) = d"
    by (rule pack_layout [OF assms])
  have rs: "send_reset fault s = Inr (send fault [3, 0, 0, 0, 0, 0, 0] s)"
    by (simp add: send_reset_def struct_pack_tx_reset)
  have rw: "send_reset fault s =
              Inr (Sent, s\<lparr>tx_wire := tx_wire s @ [[3, 0, 0, 0, 0, 0, 0]],
                            status_label := Enviado [3, 0, 0, 0, 0, 0, 0]\<rparr>)"
    if "connected s \<and> \<not> fault"
  proof -
    from that have "send fault [3, 0, 0, 0, 0, 0, 0] s =
        (Sent, s\<lparr>tx_wire := tx_wire s @ [[3, 0, 0, 0, 0, 0, 0]],
                  status_label := Enviado [3, 0, 0, 0, 0, 0, 0]\<rparr>)"
      by (intro send_connected) simp_all
    then show ?thesis by (simp only: rs)
  qed
  define m h v u where "m = max 0 (mode_combo_current choice)" and "h = clamp hv 0 500"
    and "v = (clamp vv 0 100 * 420 + 50) div 100"
    and "u = (clamp dv 0 100 * 1023 + 50) div 100"
  have cf: "command_fields (mode_combo_current choice) hv vv dv = (m, h, v, u)"
    by (simp add: command_fields_eq m_def h_def v_def u_def max_def)
  note r = command_fields_range [OF cf]
  from r have rg: "0 \<le> m" "m \<le> 255" "0 \<le> h" "h \<le> 65535" "0 \<le> v" "v \<le> 65535"
    "0 \<le> u" "u \<le> 65535"
    by simp_all
  from pack_layout [OF rg] obtain p where
    pk: "struct_pack_tx m h v u = Inr p" and len: "length p = 7"
    and bytes: "p = [word_of_int m, word_of_int (h div 256), word_of_int (h mod 256),
                 word_of_int (v div 256), word_of_int (v mod 256),
                 word_of_int (u div 256), word_of_int (u mod 256)]"
    and rd: "uint (p ! 0) = m" "u16_be (p ! 1) (p ! 2) = h"
      "u16_be (p ! 3) (p ! 4) = v" "u16_be (p ! 5) (p ! 6) = u"
    by blast
  have sc: "send_current_command fault (mode_combo_current choice) hv vv dv s
      = Inr (send fault p s)"
    by (simp add: send_current_command_def cf pk)
  have sw: "send fault p s = (Sent, s\<lparr>tx_wire := tx_wire s @ [p], status_label := Enviado p\<rparr>)"
    if "connected s \<and> \<not> fault"
    using that send_connected [of s fault p] len by simp
  have two: "\<exists>m h v u p.
            command_fields (mode_combo_current choice) hv vv dv = (m, h, v, u) \<and>
            m = max 0 (mode_combo_current choice) \<and> h = clamp hv 0 500 \<and>
            v = (clamp vv 0 100 * 420 + 50) div 100 \<and>
            u = (clamp dv 0 100 * 1023 + 50) div 100 \<and>
            struct_pack_tx m h v u = Inr p \<and> length p = 7 \<and>
            p = [word_of_int m, word_of_int (h div 256), word_of_int (h mod 256),
                 word_of_int (v div 256), word_of_int (v mod 256),
                 word_of_int (u div 256), word_of_int (u mod 256)] \<and>
            uint (p ! 0) = m \<and> u16_be (p ! 1) (p ! 2) = h \<and>
            u16_be (p ! 3) (p ! 4) = v \<and> u16_be (p ! 5) (p ! 6) = u \<and>
            send_current_command fault (mode_combo_current choice) hv vv dv s
              = Inr (send fault p s) \<and>
            (connected s \<and> \<not> fault \<longrightarrow>
               send fault p s =
                 (Sent, s\<lparr>tx_wire := tx_wire s @ [p], status_label := Enviado p\<rparr>))"
    using cf m_def h_def v_def u_def pk len bytes rd sc sw by blast
  from one struct_pack_tx_reset rs rw two show ?thesis by blast
qed

theorem command_encoding_layout_witness:
  "(\<exists>p. struct_pack_tx 1 300 210 338 = Inr p \<and> length p = 7 \<and>
      p = [1, 1, 44, 0, 210, 1, 82]) \<and>
   struct_pack_tx 3 0 0 0 = Inr [3, 0, 0, 0, 0, 0, 0] \<and>
   connected (connect ''COM3'' True app_init) \<and>
   send_current_command False (mode_combo_current Ventoinha) 300 50 33
       (connect ''COM3'' True app_init)
     = Inr (Sent, (connect ''COM3'' True app_init)\<lparr>tx_wire := [[1, 1, 44, 0, 210, 1, 82]],
          status_label := Enviado [1, 1, 44, 0, 210, 1, 82]\<rparr>) \<and>
   send_reset False (connect ''COM3'' True app_init)
     = Inr (Sent, (connect ''COM3'' True app_init)\<lparr>tx_wire := [[3, 0, 0, 0, 0, 0, 0]],
          status_label := Enviado [3, 0, 0, 0, 0, 0, 0]\<rparr>)"
proof -
  have c: "connected (connect ''COM3'' True app_init)"
    by (simp add: connected_def connect_def)
  have w: "tx_wire (connect ''COM3'' True app_init) = []"
    by (simp add: connect_def app_init_def)
  show ?thesis
    using c w command_encoding_layout [of 1 300 210 338 False "connect ''COM3'' True app_init"
        Ventoinha 300 50 33]
    by (auto simp: clamp_def)
qed

text \<open>
  Claim C10 (the command path stays in range). Whatever the mode combo box shows and
  whatever integers the three spin boxes hold, the four values \<^verbatim>\<open>_send_current_command\<close>
  packs are in range: the mode is the selected index, 0 when nothing is selected, so within
  \<open>0..3\<close>; the height is within \<open>0..500\<close>, the valve steps within \<open>0..420\<close> and the duty
  within \<open>0..1023\<close>. So \<^verbatim>\<open>struct.pack\<close> does not raise, the payload has 7 bytes, and
  \<^verbatim>\<open>_send\<close> never answers it with the wrong-size error.
\<close>

theorem command_path_in_range:
  "\<exists>m h v d payload.
     command_fields (mode_combo_current choice) hv vv dv = (m, h, v, d) \<and>
     m = max 0 (mode_combo_current choice) \<and>
     0 \<le> m \<and> m \<le> 3 \<and> 0 \<le> h \<and> h \<le> 500 \<and> 0 \<le> v \<and> v \<le> 420 \<and> 0 \<le> d \<and> d \<le> 1023 \<and>
     struct_pack_tx m h v d = Inr payload \<and> length payload = 7 \<and>
     send_current_command fault (mode_combo_current choice) hv vv dv s
       = Inr (send fault payload s) \<and>
     fst (send fault payload s) \<noteq> WrongSize"
proof -
  obtain m h v d where cf: "command_fields (mode_combo_current choice) hv vv dv = (m, h, v, d)"
    by (metis prod_cases4)
  note r = command_fields_range [OF cf]
  have mm: "m = max 0 (mode_combo_current choice)"
    using cf by (auto simp add: command_fields_def Let_def max_def)
  let ?p = "[word_of_int m, word_of_int (h div 256), word_of_int (h mod 256),
          word_of_int (v div 256), word_of_int (v mod 256),
          word_of_int (d div 256), word_of_int (d mod 256)] :: byte list"
  have pk: "struct_pack_tx m h v d = Inr ?p"
    using r by (intro struct_pack_tx_in_range) simp_all
  have snd: "send_current_command fault (mode_combo_current choice) hv vv dv s
       = Inr (send fault ?p s)"
    by (simp add: send_current_command_def cf pk)
  have ws: "fst (send fault ?p s) \<noteq> WrongSize"
    by (simp add: send_def BYTES_PER_FRAME_TX_def)
  from cf mm r pk snd ws show ?thesis by auto
qed


text \<open>
  Claim C7 (send validation), as amended. \<^verbatim>\<open>_send\<close> tests the connection first: with no
  open connection every payload, of whatever length, gets the not-connected warning; with
  an open connection every payload whose length is not 7 gets the wrong-size error. In
  both cases the state is returned as it was, so nothing is written to the port.
\<close>

theorem send_validation:
  "(\<not> connected s \<longrightarrow> send fault payload s = (NotConnected, s)) \<and>
   (connected s \<and> length payload \<noteq> 7 \<longrightarrow> send fault payload s = (WrongSize, s)) \<and>
   (fst (send fault payload s) = NotConnected \<or> fst (send fault payload s) = WrongSize
      \<longrightarrow> tx_wire (snd (send fault payload s)) = tx_wire s)"
  by (auto simp add: send_def connected_def BYTES_PER_FRAME_TX_def split: option.splits)

theorem send_validation_witness:
  "\<not> connected app_init \<and>
   send False [0, 0, 0, 0, 0, 0] app_init = (NotConnected, app_init) \<and>
   connected (connect ''COM3'' True app_init) \<and>
   fst (send False [0, 0, 0, 0, 0, 0, 0, 0] (connect ''COM3'' True app_init)) = WrongSize \<and>
   tx_wire (snd (send False [0, 0, 0, 0, 0, 0, 0, 0] (connect ''COM3'' True app_init))) = []"
proof -
  have d: "\<not> connected app_init"
    by (simp add: connected_def app_init_def)
  have c: "connected (connect ''COM3'' True app_init)"
    by (simp add: connected_def connect_def)
  have l: "length [0, 0, 0, 0, 0, 0, 0, 0 :: byte] \<noteq> 7"
    by simp
  have w: "tx_wire (connect ''COM3'' True app_init) = []"
    by (simp add: connect_def app_init_def)
  show ?thesis
    using d c l w send_validation [of app_init False "[0, 0, 0, 0, 0, 0]"]
      send_validation [of "connect ''COM3'' True app_init" False "[0, 0, 0, 0, 0, 0, 0, 0]"]
    by simp
qed

text \<open>
  The claim C7 as stated asks for the wrong-size error whether or not a connection is
  open. A 6-byte payload sent while no connection is open gets the not-connected warning
  instead.
\<close>

theorem send_wrong_size_disconnected:
  "length [0, 0, 0, 0, 0, 0 :: byte] = 6 \<and> \<not> connected app_init \<and>
   fst (send False [0, 0, 0, 0, 0, 0] app_init) = NotConnected \<and>
   fst (send False [0, 0, 0, 0, 0, 0] app_init) \<noteq> WrongSize"
  by (simp add: send_def connected_def app_init_def)

text \<open>
  Claim C8 (disconnect is idempotent). From every state, and whether or not
  \<^verbatim>\<open>close\<close> raises, \<^verbatim>\<open>_disconnect\<close> returns normally and changes four things only:
  \<^verbatim>\<open>reader_alive\<close> is cleared, no port object is stored, the button reads "Conectar" and
  the status "Desconectado". So the reading loop's condition is false afterwards, and a
  second call leaves that state as it is. On every state of a session that is not
  connected (no port object, no reading loop, button and status as above), and so on the
  initial state, it changes nothing.
\<close>

theorem disconnect_idempotent:
  "disconnect fault s
     = Inr (s\<lparr>reader_alive := False, ser := None, connect_btn := Conectar,
              status_label := Desconectado\<rparr>) \<and>
   (\<exists>s'. disconnect fault s = Inr s' \<and> ser s' = None \<and> \<not> reader_alive s' \<and>
      \<not> reader_guard s' \<and> \<not> connected s' \<and> disconnect fault' s' = Inr s') \<and>
   (ser s = None \<and> \<not> reader_alive s \<and> connect_btn s = Conectar \<and>
      status_label s = Desconectado \<longrightarrow> disconnect fault s = Inr s) \<and>
   disconnect fault app_init = Inr app_init"
proof -
  have eq: "disconnect fault s
     = Inr (s\<lparr>reader_alive := False, ser := None, connect_btn := Conectar,
              status_label := Desconectado\<rparr>)" for fault s
    by (simp add: disconnect_def ser_close_def Let_def split: option.splits)
  have twice: "\<exists>s'. disconnect fault s = Inr s' \<and> ser s' = None \<and> \<not> reader_alive s' \<and>
      \<not> reader_guard s' \<and> \<not> connected s' \<and> disconnect fault' s' = Inr s'"
    by (simp add: eq reader_guard_def connected_def)
  have fixed: "disconnect fault s = Inr s"
    if "ser s = None \<and> \<not> reader_alive s \<and> connect_btn s = Conectar \<and>
      status_label s = Desconectado"
    using that by (simp add: eq)
  have init: "disconnect fault app_init = Inr app_init"
    by (simp add: eq app_init_def)
  from eq [of fault s] twice fixed init show ?thesis by blast
qed

theorem disconnect_idempotent_witness:
  "ser (app_init\<lparr>window_seconds := 30\<rparr>) = None \<and>
   \<not> reader_alive (app_init\<lparr>window_seconds := 30\<rparr>) \<and>
   connect_btn (app_init\<lparr>window_seconds := 30\<rparr>) = Conectar \<and>
   status_label (app_init\<lparr>window_seconds := 30\<rparr>) = Desconectado \<and>
   disconnect False (app_init\<lparr>window_seconds := 30\<rparr>) = Inr (app_init\<lparr>window_seconds := 30\<rparr>) \<and>
   disconnect True (connect ''COM3'' True (app_init\<lparr>window_seconds := 30\<rparr>))
     = Inr (app_init\<lparr>window_seconds := 30, reader_thread := True\<rparr>)"
proof -
  have a: "ser (app_init\<lparr>window_seconds := 30\<rparr>) = None"
    "\<not> reader_alive (app_init\<lparr>window_seconds := 30\<rparr>)"
    "connect_btn (app_init\<lparr>window_seconds := 30\<rparr>) = Conectar"
    "status_label (app_init\<lparr>window_seconds := 30\<rparr>) = Desconectado"
    by (simp_all add: app_init_def)
  show ?thesis
    using a disconnect_idempotent [of False "app_init\<lparr>window_seconds := 30\<rparr>"]
      disconnect_idempotent [of True "connect ''COM3'' True (app_init\<lparr>window_seconds := 30\<rparr>)"]
    by (simp add: connect_def app_init_def)
qed

subsection \<open>The frame handler\<close>

lemma evict_lockstep:
  "length sp = length ts \<Longrightarrow> length mh = length ts \<Longrightarrow> length du = length ts \<Longrightarrow>
   length va = length ts \<Longrightarrow>
   evict tmin ts sp mh du va =
     Inr (drop (stale_prefix tmin ts) ts, drop (stale_prefix tmin ts) sp, drop (stale_prefix tmin ts) mh,
          drop (stale_prefix tmin ts) du, drop (stale_prefix tmin ts) va)"
proof (induction ts arbitrary: sp mh du va)
  case Nil
  then show ?case by (simp add: stale_prefix_def)
next
  case (Cons t ts)
  then obtain a sp' b mh' c du' d va'
    where eqs: "sp = a # sp'" "mh = b # mh'" "du = c # du'" "va = d # va'"
    by (metis length_Suc_conv)
  with Cons.prems have lens: "length sp' = length ts" "length mh' = length ts"
      "length du' = length ts" "length va' = length ts"
    by simp_all
  show ?case
    using Cons.IH [OF lens] by (simp add: eqs stale_prefix_def)
qed

lemma handle_frame_wrong_length:
  "length frame \<noteq> 15 \<Longrightarrow> handle_frame now frame s = Inr s"
  by (simp add: handle_frame_def BYTES_PER_FRAME_RX_def)

lemma handle_frame_ok:
  assumes "length frame = 15" "hist_aligned s"
  shows "handle_frame now frame s =
     Inr (let n = stale_prefix (fsub now (of_int (window_seconds s))) (t_hist s @ [now]) in
       s\<lparr>rx_mode := uint (frame ! 0),
         rx_height_sp := u16_be (frame ! 1) (frame ! 2),
         rx_height := u16_be (frame ! 3) (frame ! 4),
         rx_tof := u16_be (frame ! 5) (frame ! 6),
         rx_temp_x10 := u16_be (frame ! 7) (frame ! 8),
         rx_valve_sp := u16_be (frame ! 9) (frame ! 10),
         rx_valve_pos := u16_be (frame ! 11) (frame ! 12),
         rx_duty := u16_be (frame ! 13) (frame ! 14),
         t_hist := drop n (t_hist s @ [now]),
         sp_height_hist := drop n (sp_height_hist s @ [u16_be (frame ! 1) (frame ! 2)]),
         meas_height_hist := drop n (meas_height_hist s @ [u16_be (frame ! 3) (frame ! 4)]),
         duty_pct_hist := drop n (duty_pct_hist s @ [fmul (fdiv (of_int (u16_be (frame ! 13) (frame ! 14))) 1023) 100]),
         valve_pct_hist := drop n (valve_pct_hist s @ [fmul (fdiv (of_int (u16_be (frame ! 11) (frame ! 12))) 420) 100])\<rparr>)"
proof -
  have lens: "length (sp_height_hist s @ [u16_be (frame ! 1) (frame ! 2)]) = length (t_hist s @ [now])"
    "length (meas_height_hist s @ [u16_be (frame ! 3) (frame ! 4)]) = length (t_hist s @ [now])"
    "length (duty_pct_hist s @ [fmul (fdiv (of_int (u16_be (frame ! 13) (frame ! 14))) 1023) 100]) = length (t_hist s @ [now])"
    "length (valve_pct_hist s @ [fmul (fdiv (of_int (u16_be (frame ! 11) (frame ! 12))) 420) 100]) = length (t_hist s @ [now])"
    using assms(2) by (simp_all add: hist_aligned_def)
  show ?thesis
    using assms(1) evict_lockstep [OF lens, of "fsub now (of_int (window_seconds s))"]
    by (simp add: handle_frame_def BYTES_PER_FRAME_RX_def struct_unpack_rx_def
        MAX_DUTY_RAW_def MAX_VALVE_STEPS_def Let_def)
qed


lemma u16_be_range: "0 \<le> u16_be hi lo \<and> u16_be hi lo \<le> 65535"
proof -
  have "uint hi < 256" "uint lo < 256"
    using uint_lt2p [of hi] uint_lt2p [of lo] by simp_all
  moreover have "0 \<le> uint hi" "0 \<le> uint lo" by simp_all
  ultimately show ?thesis unfolding u16_be_def by linarith
qed

lemma handle_frame_rx:
  assumes "length frame = 15" "hist_aligned s"
  shows "\<exists>s'. handle_frame now frame s = Inr s' \<and>
      rx_mode s' = uint (frame ! 0) \<and>
      rx_height_sp s' = u16_be (frame ! 1) (frame ! 2) \<and>
      rx_height s' = u16_be (frame ! 3) (frame ! 4) \<and>
      rx_tof s' = u16_be (frame ! 5) (frame ! 6) \<and>
      rx_temp_x10 s' = u16_be (frame ! 7) (frame ! 8) \<and>
      rx_valve_sp s' = u16_be (frame ! 9) (frame ! 10) \<and>
      rx_valve_pos s' = u16_be (frame ! 11) (frame ! 12) \<and>
      rx_duty s' = u16_be (frame ! 13) (frame ! 14)"
  by (simp add: handle_frame_ok [OF assms] Let_def)

text \<open>
  Claim C3 (frame decode). \<^verbatim>\<open>struct.unpack\<close> with the receive format returns the eight
  fields exactly when the buffer has 15 bytes. \<^verbatim>\<open>_handle_frame\<close> leaves the state as it
  is on a buffer of any other length. On a buffer of 15 bytes, whatever the bytes are, it
  returns normally and the \<open>rx\<close> variables hold the byte at offset 0 and the seven
  unsigned 16-bit big-endian values at offsets 1, 3, 5, 7, 9, 11 and 13, nothing checked
  and nothing clamped: the mode is any value of \<open>0..255\<close> and the others any value of
  \<open>0..65535\<close>. (The deques have one length before and after every call of the handler, lemma
  \<open>app_run_aligned\<close>; this is what keeps the eviction loop that follows from raising.)
\<close>

theorem frame_decode:
  "((\<exists>v. struct_unpack_rx frame = Inr v) = (length frame = 15)) \<and>
   (length frame \<noteq> 15 \<longrightarrow>
      struct_unpack_rx frame = Inl StructError \<and> handle_frame now frame s = Inr s) \<and>
   (length frame = 15 \<and> hist_aligned s \<longrightarrow>
      (\<exists>s'. handle_frame now frame s = Inr s' \<and>
         rx_mode s' = uint (frame ! 0) \<and>
         rx_height_sp s' = 256 * uint (frame ! 1) + uint (frame ! 2) \<and>
         rx_height s' = 256 * uint (frame ! 3) + uint (frame ! 4) \<and>
         rx_tof s' = 256 * uint (frame ! 5) + uint (frame ! 6) \<and>
         rx_temp_x10 s' = 256 * uint (frame ! 7) + uint (frame ! 8) \<and>
         rx_valve_sp s' = 256 * uint (frame ! 9) + uint (frame ! 10) \<and>
         rx_valve_pos s' = 256 * uint (frame ! 11) + uint (frame ! 12) \<and>
         rx_duty s' = 256 * uint (frame ! 13) + uint (frame ! 14) \<and>
         0 \<le> rx_mode s' \<and> rx_mode s' \<le> 255 \<and>
         (\<forall>x \<in> {rx_height_sp s', rx_height s', rx_tof s', rx_temp_x10 s', rx_valve_sp s',
                 rx_valve_pos s', rx_duty s'}. 0 \<le> x \<and> x \<le> 65535)))"
proof -
  have a: "(\<exists>v. struct_unpack_rx frame = Inr v) = (length frame = 15)"
    by (simp add: struct_unpack_rx_def)
  have b: "struct_unpack_rx frame = Inl StructError \<and> handle_frame now frame s = Inr s"
    if "length frame \<noteq> 15"
    using that by (simp add: struct_unpack_rx_def handle_frame_wrong_length)
  have c: "\<exists>s'. handle_frame now frame s = Inr s' \<and>
         rx_mode s' = uint (frame ! 0) \<and>
         rx_height_sp s' = 256 * uint (frame ! 1) + uint (frame ! 2) \<and>
         rx_height s' = 256 * uint (frame ! 3) + uint (frame ! 4) \<and>
         rx_tof s' = 256 * uint (frame ! 5) + uint (frame ! 6) \<and>
         rx_temp_x10 s' = 256 * uint (frame ! 7) + uint (frame ! 8) \<and>
         rx_valve_sp s' = 256 * uint (frame ! 9) + uint (frame ! 10) \<and>
         rx_valve_pos s' = 256 * uint (frame ! 11) + uint (frame ! 12) \<and>
         rx_duty s' = 256 * uint (frame ! 13) + uint (frame ! 14) \<and>
         0 \<le> rx_mode s' \<and> rx_mode s' \<le> 255 \<and>
         (\<forall>x \<in> {rx_height_sp s', rx_height s', rx_tof s', rx_temp_x10 s', rx_valve_sp s',
                 rx_valve_pos s', rx_duty s'}. 0 \<le> x \<and> x \<le> 65535)"
    if "length frame = 15" "hist_aligned s"
  proof -
    from handle_frame_rx [OF that] obtain s' where h: "handle_frame now frame s = Inr s'"
      and f: "rx_mode s' = uint (frame ! 0)"
        "rx_height_sp s' = u16_be (frame ! 1) (frame ! 2)"
        "rx_height s' = u16_be (frame ! 3) (frame ! 4)"
        "rx_tof s' = u16_be (frame ! 5) (frame ! 6)"
        "rx_temp_x10 s' = u16_be (frame ! 7) (frame ! 8)"
        "rx_valve_sp s' = u16_be (frame ! 9) (frame ! 10)"
        "rx_valve_pos s' = u16_be (frame ! 11) (frame ! 12)"
        "rx_duty s' = u16_be (frame ! 13) (frame ! 14)"
      by blast
    have m: "0 \<le> rx_mode s' \<and> rx_mode s' \<le> 255"
      using uint_lt2p [of "frame ! 0"] by (simp add: f(1))
    have r: "\<forall>x \<in> {rx_height_sp s', rx_height s', rx_tof s', rx_temp_x10 s', rx_valve_sp s',
                 rx_valve_pos s', rx_duty s'}. 0 \<le> x \<and> x \<le> 65535"
      by (simp add: f u16_be_range)
    from h f m r show ?thesis
      unfolding u16_be_def by blast
  qed
  from a b c show ?thesis by blast
qed

theorem frame_decode_witness:
  "length frame_z = 15 \<and> hist_aligned app_init \<and>
   (\<exists>s'. handle_frame 1 frame_z app_init = Inr s' \<and> rx_mode s' = 2 \<and> rx_height_sp s' = 300 \<and>
      rx_height s' = 200 \<and> rx_tof s' = 7 \<and> rx_temp_x10 s' = 253 \<and> rx_valve_sp s' = 210 \<and>
      rx_valve_pos s' = 105 \<and> rx_duty s' = 338) \<and>
   handle_frame 1 [1, 2, 3] app_init = Inr app_init"
proof -
  have l: "length frame_z = 15" by (simp add: frame_z_def)
  have a: "hist_aligned app_init" by (simp add: hist_aligned_def app_init_def)
  have w: "length [1, 2, 3 :: byte] \<noteq> 15" by simp
  from frame_decode [of frame_z 1 app_init] l a
  obtain s' where "handle_frame 1 frame_z app_init = Inr s'"
    "rx_mode s' = uint (frame_z ! 0)"
    "rx_height_sp s' = 256 * uint (frame_z ! 1) + uint (frame_z ! 2)"
    "rx_height s' = 256 * uint (frame_z ! 3) + uint (frame_z ! 4)"
    "rx_tof s' = 256 * uint (frame_z ! 5) + uint (frame_z ! 6)"
    "rx_temp_x10 s' = 256 * uint (frame_z ! 7) + uint (frame_z ! 8)"
    "rx_valve_sp s' = 256 * uint (frame_z ! 9) + uint (frame_z ! 10)"
    "rx_valve_pos s' = 256 * uint (frame_z ! 11) + uint (frame_z ! 12)"
    "rx_duty s' = 256 * uint (frame_z ! 13) + uint (frame_z ! 14)"
    by blast
  then have "\<exists>s'. handle_frame 1 frame_z app_init = Inr s' \<and> rx_mode s' = 2 \<and>
      rx_height_sp s' = 300 \<and> rx_height s' = 200 \<and> rx_tof s' = 7 \<and> rx_temp_x10 s' = 253 \<and>
      rx_valve_sp s' = 210 \<and> rx_valve_pos s' = 105 \<and> rx_duty s' = 338"
    by (simp add: frame_z_def)
  moreover have "handle_frame 1 [1, 2, 3] app_init = Inr app_init"
    using frame_decode [of "[1, 2, 3]" 1 app_init] w by blast
  ultimately show ?thesis using l a by blast
qed

lemma stale_prefix_le: "stale_prefix tmin ts \<le> length ts"
  by (simp add: stale_prefix_def length_takeWhile_le)

lemma handle_frame_lockstep:
  assumes "length frame = 15" "hist_aligned s"
  shows "\<exists>s' n. handle_frame now frame s = Inr s' \<and> hist_aligned s' \<and>
      window_seconds s' = window_seconds s \<and>
      n = stale_prefix (fsub now (of_int (window_seconds s))) (t_hist s @ [now]) \<and>
      n \<le> length (t_hist s) + 1 \<and>
      t_hist s' = drop n (t_hist s @ [now]) \<and>
      sp_height_hist s' = drop n (sp_height_hist s @ [u16_be (frame ! 1) (frame ! 2)]) \<and>
      meas_height_hist s' = drop n (meas_height_hist s @ [u16_be (frame ! 3) (frame ! 4)]) \<and>
      duty_pct_hist s' = drop n (duty_pct_hist s
         @ [fmul (fdiv (of_int (u16_be (frame ! 13) (frame ! 14))) 1023) 100]) \<and>
      valve_pct_hist s' = drop n (valve_pct_hist s
         @ [fmul (fdiv (of_int (u16_be (frame ! 11) (frame ! 12))) 420) 100])"
  using assms(2) stale_prefix_le [of "fsub now (of_int (window_seconds s))" "t_hist s @ [now]"]
  by (simp add: handle_frame_ok [OF assms] Let_def hist_aligned_def)

lemma app_step_aligned:
  assumes "hist_aligned s"
  shows "\<exists>s'. app_step e s = Inr s' \<and> hist_aligned s'"
proof (cases e)
  case (Frame now frame)
  show ?thesis
  proof (cases "length frame = 15")
    case True
    from handle_frame_lockstep [OF True assms, of now] show ?thesis
      by (auto simp: Frame)
  next
    case False
    then show ?thesis
      using assms by (simp add: Frame handle_frame_wrong_length)
  qed
next
  case (ApplyWindow v)
  then show ?thesis
    using assms by (simp add: apply_window_seconds_def hist_aligned_def Let_def split: option.splits)
qed

lemma app_run_aligned:
  "hist_aligned s \<Longrightarrow> \<exists>s'. app_run es s = Inr s' \<and> hist_aligned s'"
proof (induction es arbitrary: s)
  case Nil
  then show ?case by simp
next
  case (Cons e es)
  from app_step_aligned [OF Cons.prems] obtain s1 where
    s1: "app_step e s = Inr s1" "hist_aligned s1" by blast
  from Cons.IH [OF s1(2)] show ?case by (simp add: s1(1))
qed

lemma app_init_aligned: "hist_aligned app_init"
  by (simp add: hist_aligned_def app_init_def)

subsection \<open>The history deques\<close>

text \<open>The difference of two integers below \<open>2^53\<close> is exact.\<close>

lemma fsub_int:
  assumes "\<bar>a - b\<bar> < 2 ^ 53"
  shows "fsub (of_int a) (of_int b) = of_int (a - b)"
proof -
  have "fsub (of_int a) (of_int b) = fl64 (of_int (a - b))"
    by (simp add: fsub_def)
  also have "\<dots> = of_int (a - b)"
    by (rule fl64_of_int [OF assms])
  finally show ?thesis .
qed

lemma fsub_60:
  "fsub 0 60 = - 60" "fsub 10 60 = - 50" "fsub 20 60 = - 40" "fsub 30 60 = - 30"
  "fsub 40 60 = - 20" "fsub 50 60 = - 10" "fsub 60 60 = 0" "fsub 70 60 = 10"
  "fsub 150 60 = 90" "fsub 200 60 = 140" "fsub 5 60 = - 55"
  using fsub_int [of 0 60] fsub_int [of 10 60] fsub_int [of 20 60] fsub_int [of 30 60]
    fsub_int [of 40 60] fsub_int [of 50 60] fsub_int [of 60 60] fsub_int [of 70 60]
    fsub_int [of 150 60] fsub_int [of 200 60] fsub_int [of 5 60]
  by simp_all

lemma drop_stale_sorted:
  "sorted ts \<Longrightarrow> drop (stale_prefix tmin ts) ts = filter (\<lambda>t. tmin \<le> t) ts"
proof (induction ts)
  case Nil
  then show ?case by (simp add: stale_prefix_def)
next
  case (Cons t ts)
  then have ih: "drop (stale_prefix tmin ts) ts = filter (\<lambda>t. tmin \<le> t) ts"
    and le: "\<forall>x\<in>set ts. t \<le> x"
    by simp_all
  show ?case
  proof (cases "t < tmin")
    case True
    then show ?thesis using ih by (simp add: stale_prefix_def)
  next
    case False
    with le have "\<forall>x\<in>set ts. tmin \<le> x" by auto
    then have "filter (\<lambda>t. tmin \<le> t) ts = ts" by (simp add: filter_id_conv)
    with False show ?thesis by (simp add: stale_prefix_def)
  qed
qed

lemma push_frame_z:
  assumes "hist_aligned u" "window_seconds u = 60"
  shows "\<exists>s'. handle_frame t frame_z u = Inr s' \<and> hist_aligned s' \<and> window_seconds s' = 60 \<and>
      t_hist s' = drop (stale_prefix (fsub t 60) (t_hist u @ [t])) (t_hist u @ [t])"
proof -
  have lz: "length frame_z = 15" by (simp add: frame_z_def)
  show ?thesis
    using handle_frame_lockstep [OF lz assms(1), of t] assms(2) by auto
qed

lemma window_eviction_in_time_order:
  assumes "length frame = 15" "hist_aligned s" "sorted (t_hist s)" "\<forall>t\<in>set (t_hist s). t \<le> now"
  shows "\<exists>s'. handle_frame now frame s = Inr s' \<and>
           t_hist s' = filter (\<lambda>t. fsub now (of_int (window_seconds s)) \<le> t) (t_hist s @ [now]) \<and>
           (\<forall>t\<in>set (t_hist s'). fsub now (of_int (window_seconds s')) \<le> t) \<and>
           window_seconds s' = window_seconds s \<and>
           hist_aligned s' \<and> sorted (t_hist s') \<and> (\<forall>t\<in>set (t_hist s'). t \<le> now)"
proof -
  let ?tmin = "fsub now (of_int (window_seconds s))"
  from handle_frame_lockstep [OF assms(1,2), of now] obtain s' where
    h: "handle_frame now frame s = Inr s'" and al: "hist_aligned s'"
    and w: "window_seconds s' = window_seconds s"
    and t: "t_hist s' = drop (stale_prefix ?tmin (t_hist s @ [now])) (t_hist s @ [now])"
    by blast
  have so: "sorted (t_hist s @ [now])"
    using assms(3,4) by (simp add: sorted_append)
  have f: "t_hist s' = filter (\<lambda>t. ?tmin \<le> t) (t_hist s @ [now])"
    unfolding t by (rule drop_stale_sorted [OF so])
  have lo: "\<forall>t\<in>set (t_hist s'). fsub now (of_int (window_seconds s')) \<le> t"
    by (simp add: f w)
  have so': "sorted (t_hist s')"
    unfolding f using so by (rule sorted_wrt_filter)
  have hi: "\<forall>t\<in>set (t_hist s'). t \<le> now"
    using assms(4) by (auto simp: f)
  show ?thesis
    using h f lo w al so' hi by blast
qed

lemma window_eviction_0_to_70:
  "map_sum id t_hist (app_run [Frame 0 frame_z, Frame 10 frame_z, Frame 20 frame_z,
       Frame 30 frame_z, Frame 40 frame_z, Frame 50 frame_z, Frame 60 frame_z] app_init)
     = Inr [0, 10, 20, 30, 40, 50, 60]"
  "map_sum id t_hist (app_run [Frame 0 frame_z, Frame 10 frame_z, Frame 20 frame_z,
       Frame 30 frame_z, Frame 40 frame_z, Frame 50 frame_z, Frame 60 frame_z,
       Frame 70 frame_z] app_init)
     = Inr [10, 20, 30, 40, 50, 60, 70]"
proof -
  have wz: "window_seconds app_init = 60" by (simp add: app_init_def PLOT_WINDOW_SECONDS_def)
  have tz: "t_hist app_init = []" by (simp add: app_init_def)
  note push = push_frame_z
  from push [OF app_init_aligned wz, of 0] obtain s0 where
    s0: "handle_frame 0 frame_z app_init = Inr s0" "hist_aligned s0" "window_seconds s0 = 60"
      "t_hist s0 = [0]"
    by (auto simp: tz stale_prefix_def fsub_60)
  from push [OF s0(2,3), of 10] obtain s1 where
    s1: "handle_frame 10 frame_z s0 = Inr s1" "hist_aligned s1" "window_seconds s1 = 60"
      "t_hist s1 = [0, 10]"
    by (auto simp: s0(4) stale_prefix_def fsub_60)
  from push [OF s1(2,3), of 20] obtain s2 where
    s2: "handle_frame 20 frame_z s1 = Inr s2" "hist_aligned s2" "window_seconds s2 = 60"
      "t_hist s2 = [0, 10, 20]"
    by (auto simp: s1(4) stale_prefix_def fsub_60)
  from push [OF s2(2,3), of 30] obtain s3 where
    s3: "handle_frame 30 frame_z s2 = Inr s3" "hist_aligned s3" "window_seconds s3 = 60"
      "t_hist s3 = [0, 10, 20, 30]"
    by (auto simp: s2(4) stale_prefix_def fsub_60)
  from push [OF s3(2,3), of 40] obtain s4 where
    s4: "handle_frame 40 frame_z s3 = Inr s4" "hist_aligned s4" "window_seconds s4 = 60"
      "t_hist s4 = [0, 10, 20, 30, 40]"
    by (auto simp: s3(4) stale_prefix_def fsub_60)
  from push [OF s4(2,3), of 50] obtain s5 where
    s5: "handle_frame 50 frame_z s4 = Inr s5" "hist_aligned s5" "window_seconds s5 = 60"
      "t_hist s5 = [0, 10, 20, 30, 40, 50]"
    by (auto simp: s4(4) stale_prefix_def fsub_60)
  from push [OF s5(2,3), of 60] obtain s6 where
    s6: "handle_frame 60 frame_z s5 = Inr s6" "hist_aligned s6" "window_seconds s6 = 60"
      "t_hist s6 = [0, 10, 20, 30, 40, 50, 60]"
    by (auto simp: s5(4) stale_prefix_def fsub_60)
  from push [OF s6(2,3), of 70] obtain s7 where
    s7: "handle_frame 70 frame_z s6 = Inr s7" "hist_aligned s7" "window_seconds s7 = 60"
      "t_hist s7 = [10, 20, 30, 40, 50, 60, 70]"
    by (auto simp: s6(4) stale_prefix_def fsub_60)
  show "map_sum id t_hist (app_run [Frame 0 frame_z, Frame 10 frame_z, Frame 20 frame_z,
             Frame 30 frame_z, Frame 40 frame_z, Frame 50 frame_z, Frame 60 frame_z] app_init)
           = Inr [0, 10, 20, 30, 40, 50, 60]"
    by (simp add: s0(1) s1(1) s2(1) s3(1) s4(1) s5(1) s6(1) s6(4))
  show "map_sum id t_hist (app_run [Frame 0 frame_z, Frame 10 frame_z, Frame 20 frame_z,
             Frame 30 frame_z, Frame 40 frame_z, Frame 50 frame_z, Frame 60 frame_z,
             Frame 70 frame_z] app_init)
           = Inr [10, 20, 30, 40, 50, 60, 70]"
    by (simp add: s0(1) s1(1) s2(1) s3(1) s4(1) s5(1) s6(1) s7(1) s7(4))
qed

text \<open>
  Claim C6 (window eviction). Where the samples are pushed in time order the handler
  keeps exactly those, the new one included, that are not older than the bound it
  computes, \<open>now - window_seconds\<close> rounded to a double (lemma
  \<open>window_eviction_in_time_order\<close>; lemma \<open>window_eviction_0_to_70\<close> for the samples
  0, 10, ..., 70). But the handler stamps the samples with \<^verbatim>\<open>time.time()\<close>, the wall clock,
  which can step back, and its loop evicts from the front only. With frames handled at the
  readings 150, 10 and 200 and the window of 60 seconds, the loop of the third push stops
  at the front sample 150, and the sample of 10, older than \<open>200 - 60 = 140\<close>, is
  retained: at this input the code does not keep the invariant of the claim.
\<close>

theorem window_eviction_clock_stepped_back:
  "map_sum id t_hist
     (app_run [Frame 150 frame_z, Frame 10 frame_z, Frame 200 frame_z] app_init)
     = Inr [150, 10, 200] \<and>
   map_sum id window_seconds
     (app_run [Frame 150 frame_z, Frame 10 frame_z, Frame 200 frame_z] app_init) = Inr 60 \<and>
   fsub 200 60 = 140 \<and> (10::real) < 200 - 60"
proof -
  have wz: "window_seconds app_init = 60" by (simp add: app_init_def PLOT_WINDOW_SECONDS_def)
  have tz: "t_hist app_init = []" by (simp add: app_init_def)
  from push_frame_z [OF app_init_aligned wz, of 150] obtain s0 where
    s0: "handle_frame 150 frame_z app_init = Inr s0" "hist_aligned s0" "window_seconds s0 = 60"
      "t_hist s0 = [150]"
    by (auto simp: tz stale_prefix_def fsub_60)
  from push_frame_z [OF s0(2,3), of 10] obtain s1 where
    s1: "handle_frame 10 frame_z s0 = Inr s1" "hist_aligned s1" "window_seconds s1 = 60"
      "t_hist s1 = [150, 10]"
    by (auto simp: s0(4) stale_prefix_def fsub_60)
  from push_frame_z [OF s1(2,3), of 200] obtain s2 where
    s2: "handle_frame 200 frame_z s1 = Inr s2" "hist_aligned s2" "window_seconds s2 = 60"
      "t_hist s2 = [150, 10, 200]"
    by (auto simp: s1(4) stale_prefix_def fsub_60)
  show ?thesis
    by (simp add: s0(1) s1(1) s2(1) s2(3,4) fsub_60)
qed

text \<open>
  From a state with the deques aligned, the statements of one call end in the state
  \<open>handle_frame\<close> returns.
\<close>

lemma evict_steps_last:
  assumes "t_hist s = ts" "hist_aligned s"
  shows "\<exists>ts' sp mh du va.
      evict tmin ts (sp_height_hist s) (meas_height_hist s) (duty_pct_hist s) (valve_pct_hist s)
        = Inr (ts', sp, mh, du, va) \<and>
      last (s # evict_steps tmin ts s)
        = s\<lparr>t_hist := ts', sp_height_hist := sp, meas_height_hist := mh,
             duty_pct_hist := du, valve_pct_hist := va\<rparr>"
  using assms
proof (induction ts arbitrary: s)
  case Nil
  then show ?case by simp
next
  case (Cons t ts)
  show ?case
  proof (cases "t < tmin")
    case False
    then show ?thesis using Cons.prems(1) by simp
  next
    case True
    from Cons.prems obtain a sp' b mh' c du' d va'
      where eqs: "sp_height_hist s = a # sp'" "meas_height_hist s = b # mh'"
        "duty_pct_hist s = c # du'" "valve_pct_hist s = d # va'"
      unfolding hist_aligned_def by (metis length_Suc_conv)
    let ?s5 = "s\<lparr>t_hist := ts, sp_height_hist := sp', meas_height_hist := mh',
        duty_pct_hist := du', valve_pct_hist := va'\<rparr>"
    have t5: "t_hist ?s5 = ts" by simp
    have a5: "hist_aligned ?s5"
      using Cons.prems by (simp add: hist_aligned_def eqs)
    from Cons.IH [OF t5 a5] obtain ts' sp mh du va where
      e: "evict tmin ts sp' mh' du' va' = Inr (ts', sp, mh, du, va)"
      and l: "last (?s5 # evict_steps tmin ts ?s5)
        = ?s5\<lparr>t_hist := ts', sp_height_hist := sp, meas_height_hist := mh,
             duty_pct_hist := du, valve_pct_hist := va\<rparr>"
      by auto
    have st: "evict_steps tmin (t # ts) s =
        [s\<lparr>t_hist := ts\<rparr>, s\<lparr>t_hist := ts, sp_height_hist := sp'\<rparr>,
         s\<lparr>t_hist := ts, sp_height_hist := sp', meas_height_hist := mh'\<rparr>,
         s\<lparr>t_hist := ts, sp_height_hist := sp', meas_height_hist := mh',
           duty_pct_hist := du'\<rparr>] @ (?s5 # evict_steps tmin ts ?s5)"
      using True by (simp add: eqs Let_def)
    have "last (s # evict_steps tmin (t # ts) s) = last (?s5 # evict_steps tmin ts ?s5)"
      unfolding st by (simp only: last_appendR last_ConsR list.distinct
          append_is_Nil_conv simp_thms split: if_splits)
    with l e True show ?thesis by (simp add: eqs)
  qed
qed

lemma handle_frame_steps_last:
  assumes "length frame = 15" "hist_aligned s"
  shows "handle_frame now frame s = Inr (last (handle_frame_steps now frame s))"
proof -
  obtain A B C D E F G H where u: "struct_unpack_rx frame = Inr (A, B, C, D, E, F, G, H)"
    using assms(1) by (simp add: struct_unpack_rx_def)
  define s1 where "s1 = s\<lparr>rx_mode := A, rx_height_sp := B, rx_height := C, rx_tof := D,
      rx_temp_x10 := E, rx_valve_sp := F, rx_valve_pos := G, rx_duty := H\<rparr>"
  define dp where "dp = fmul (fdiv (of_int H) (of_int MAX_DUTY_RAW)) 100"
  define vp where "vp = fmul (fdiv (of_int G) (of_int MAX_VALVE_STEPS)) 100"
  define a5 where "a5 = s1\<lparr>t_hist := t_hist s1 @ [now], sp_height_hist := sp_height_hist s1 @ [B],
      meas_height_hist := meas_height_hist s1 @ [C], duty_pct_hist := duty_pct_hist s1 @ [dp],
      valve_pct_hist := valve_pct_hist s1 @ [vp]\<rparr>"
  define tmin where "tmin = fsub now (of_int (window_seconds s1))"
  have al: "hist_aligned a5"
    using assms(2) by (simp add: a5_def s1_def hist_aligned_def)
  from evict_steps_last [OF refl al, of tmin] obtain ts' sp mh du va where
    e: "evict tmin (t_hist a5) (sp_height_hist a5) (meas_height_hist a5) (duty_pct_hist a5)
          (valve_pct_hist a5) = Inr (ts', sp, mh, du, va)"
    and l: "last (a5 # evict_steps tmin (t_hist a5) a5)
        = a5\<lparr>t_hist := ts', sp_height_hist := sp, meas_height_hist := mh,
             duty_pct_hist := du, valve_pct_hist := va\<rparr>"
    by blast
  have hf: "handle_frame now frame s = Inr (s1\<lparr>t_hist := ts', sp_height_hist := sp,
      meas_height_hist := mh, duty_pct_hist := du, valve_pct_hist := va\<rparr>)"
    using assms(1) e
    by (simp add: handle_frame_def BYTES_PER_FRAME_RX_def u Let_def MAX_DUTY_RAW_def
        MAX_VALVE_STEPS_def a5_def s1_def dp_def vp_def tmin_def)
  have hs: "handle_frame_steps now frame s =
      [s1, s1\<lparr>t_hist := t_hist s1 @ [now]\<rparr>,
       s1\<lparr>t_hist := t_hist s1 @ [now], sp_height_hist := sp_height_hist s1 @ [B]\<rparr>,
       s1\<lparr>t_hist := t_hist s1 @ [now], sp_height_hist := sp_height_hist s1 @ [B],
         meas_height_hist := meas_height_hist s1 @ [C]\<rparr>,
       s1\<lparr>t_hist := t_hist s1 @ [now], sp_height_hist := sp_height_hist s1 @ [B],
         meas_height_hist := meas_height_hist s1 @ [C],
         duty_pct_hist := duty_pct_hist s1 @ [dp]\<rparr>]
      @ (a5 # evict_steps tmin (t_hist a5) a5)"
    using assms(1)
    by (simp add: handle_frame_steps_def BYTES_PER_FRAME_RX_def u Let_def MAX_DUTY_RAW_def
        MAX_VALVE_STEPS_def a5_def s1_def dp_def vp_def tmin_def)
  have "last (handle_frame_steps now frame s) = last (a5 # evict_steps tmin (t_hist a5) a5)"
    unfolding hs by (simp only: last_appendR list.distinct not_False_eq_True)
  also note l
  finally have "last (handle_frame_steps now frame s)
      = s1\<lparr>t_hist := ts', sp_height_hist := sp, meas_height_hist := mh,
           duty_pct_hist := du, valve_pct_hist := va\<rparr>"
    by (simp add: a5_def)
  with hf show ?thesis by simp
qed

text \<open>
  Claim C9 (the five history deques stay aligned). Between the calls of the handler the
  five deques have one length (lemmas \<open>app_run_aligned\<close> and \<open>handle_frame_lockstep\<close>: a
  15-byte frame appends one element to each and then drops the same number of elements
  from the front of each), and the last of the states of \<open>handle_frame_steps\<close> is the
  state \<open>handle_frame\<close> returns (lemma \<open>handle_frame_steps_last\<close>). But the handler runs
  on the reader thread and takes no lock, and \<^verbatim>\<open>_update_plots\<close> on the Tk thread can run
  between two of its statements. Handling one frame from the initial state goes through
  states in which the deques have the lengths 1, 0, 0, 0, 0, then 1, 1, 0, 0, 0, and so
  on; in the state after the first append \<^verbatim>\<open>_update_plots\<close> hands a time axis of one point
  and four empty series to the plot lines: there the code does not keep the invariant of
  the claim.
\<close>

theorem history_deques_torn:
  "map (\<lambda>s. [length (t_hist s), length (sp_height_hist s), length (meas_height_hist s),
              length (duty_pct_hist s), length (valve_pct_hist s)])
       (handle_frame_steps 5 frame_z app_init)
     = [[0, 0, 0, 0, 0], [1, 0, 0, 0, 0], [1, 1, 0, 0, 0], [1, 1, 1, 0, 0], [1, 1, 1, 1, 0],
        [1, 1, 1, 1, 1]] \<and>
   update_plots (handle_frame_steps 5 frame_z app_init ! 1) = Some ([0], [], [], [], []) \<and>
   \<not> hist_aligned (handle_frame_steps 5 frame_z app_init ! 1)"
proof -
  have z: "fsub 5 5 = 0" by (simp add: fsub_def fl64_def)
  have w: "window_seconds app_init = 60" by (simp add: app_init_def PLOT_WINDOW_SECONDS_def)
  have st: "handle_frame_steps 5 frame_z app_init =
     (let s1 = app_init\<lparr>rx_mode := 2, rx_height_sp := 300, rx_height := 200, rx_tof := 7,
            rx_temp_x10 := 253, rx_valve_sp := 210, rx_valve_pos := 105, rx_duty := 338\<rparr>;
          a1 = s1\<lparr>t_hist := [5]\<rparr>;
          a2 = a1\<lparr>sp_height_hist := [300]\<rparr>;
          a3 = a2\<lparr>meas_height_hist := [200]\<rparr>;
          a4 = a3\<lparr>duty_pct_hist := [fmul (fdiv 338 1023) 100]\<rparr>;
          a5 = a4\<lparr>valve_pct_hist := [fmul (fdiv 105 420) 100]\<rparr>
      in [s1, a1, a2, a3, a4, a5])"
    by (simp add: handle_frame_steps_def BYTES_PER_FRAME_RX_def struct_unpack_rx_def
        frame_z_def u16_be_def Let_def MAX_DUTY_RAW_def MAX_VALVE_STEPS_def w fsub_60)
      (simp add: app_init_def)
  show ?thesis
    unfolding st by (simp add: Let_def update_plots_def hist_aligned_def z) (simp add: app_init_def)
qed

end
